theory Spec2Isabelle
  imports Main "HOL-Library.Word" "HOL-Library.Log_Nat"
begin

unbundle bit_operations_syntax

section \<open>Identifiers\<close>

text \<open>
  A digest is a \<^verbatim>\<open>big.Int\<close>: an unbounded integer with two's complement bit access,
  which is what \<^typ>\<open>int\<close> with \<^const>\<open>bit\<close> and \<open>XOR\<close> is.  The identifier stored in
  the routing table carries a namespace tag beside the digest; the table reads the digest
  only, so the tag's type is left open.
\<close>

datatype error = Panic

record 'ns NodeID =
  NS :: 'ns
  Digest :: int

record 'ns NodeInfo =
  ID :: "'ns NodeID"
  Addr :: string

definition Xor :: "int \<Rightarrow> int \<Rightarrow> int" where
  "Xor a n = a XOR n"

definition Cmp :: "int \<Rightarrow> int \<Rightarrow> int" where
  "Cmp a n = (if a < n then -1 else if a = n then 0 else 1)"

text \<open>
  The loop of \<^verbatim>\<open>Log2int\<close>: \<^verbatim>\<open>for i := 160; i >= 0 && b.Bit(i) == 0; i-- { l-- }\<close>.
\<close>

function Log2int_loop :: "int \<Rightarrow> int \<Rightarrow> int \<Rightarrow> int" where
  "Log2int_loop b i l =
     (if 0 \<le> i \<and> \<not> bit b (nat i) then Log2int_loop b (i - 1) (l - 1) else l)"
  by pat_completeness auto
termination
  by (relation "measure (\<lambda>(b, i, l). nat (i + 1))") auto

declare Log2int_loop.simps [simp del]

definition Log2int :: "int \<Rightarrow> int" where
  "Log2int x =
     (let l = Log2int_loop (x + 1) 160 159
      in if l < 0 then 0 else l)"

section \<open>Routing table\<close>

text \<open>
  \<^verbatim>\<open>bucketSize = 160\<close>; \<^verbatim>\<open>k\<close> is a Go \<^verbatim>\<open>int\<close>.  The mutex is not modelled: the
  methods are taken one after the other, each running from entry to exit.
\<close>

definition bucketSize :: int where
  "bucketSize = 160"

record 'ns nodeTable =
  buckets :: "'ns NodeInfo list list"
  selfid :: "'ns NodeID"
  k :: int

definition newNodeTable :: "int \<Rightarrow> 'ns NodeID \<Rightarrow> 'ns nodeTable" where
  "newNodeTable k0 id0 = \<lparr>buckets = replicate (nat bucketSize) [], selfid = id0, k = k0\<rparr>"

text \<open>
  The bucket index \<^verbatim>\<open>id.Digest.Xor(p.selfid.Digest).Log2int()\<close>, shared by every method.
  \<open>Log2int\<close> stays within 0 and 159 for every integer (shown below), so indexing the
  160 buckets with it never leaves the slice.
\<close>

definition bucketOf :: "'ns nodeTable \<Rightarrow> 'ns NodeID \<Rightarrow> nat" where
  "bucketOf p id0 = nat (Log2int (Xor (Digest id0) (Digest (selfid p))))"

text \<open>
  The loop of \<^verbatim>\<open>remove\<close>: the first entry whose digest compares equal is cut out
  (\<^verbatim>\<open>append(b[:i], b[i+1:]...)\<close>) and the loop returns.
\<close>

fun remove_loop :: "int \<Rightarrow> 'ns NodeInfo list \<Rightarrow> 'ns NodeInfo list" where
  "remove_loop d [] = []"
| "remove_loop d (n # ns) =
     (if Cmp (Digest (ID n)) d = 0 then ns else n # remove_loop d ns)"

definition remove_tbl :: "'ns NodeID \<Rightarrow> 'ns nodeTable \<Rightarrow> 'ns nodeTable" where
  "remove_tbl id0 p =
     (let b = bucketOf p id0
      in p\<lparr>buckets := (buckets p)[b := remove_loop (Digest id0) (buckets p ! b)]\<rparr>)"

text \<open>
  \<^verbatim>\<open>insert\<close>: after the removal, append when the bucket is shorter than \<^verbatim>\<open>k\<close>,
  otherwise overwrite the last slot.  With an empty bucket the index of the last slot is
  \<open>-1\<close> and Go panics.
\<close>

definition insert_tbl :: "'ns NodeInfo \<Rightarrow> 'ns nodeTable \<Rightarrow> error + 'ns nodeTable" where
  "insert_tbl node p0 =
     (let p = remove_tbl (ID node) p0;
          b = bucketOf p (ID node);
          bk = buckets p ! b
      in if int (length bk) < k p
         then Inr (p\<lparr>buckets := (buckets p)[b := bk @ [node]]\<rparr>)
         else if bk = [] then Inl Panic
         else Inr (p\<lparr>buckets := (buckets p)[b := bk[length bk - 1 := node]]\<rparr>))"

definition nodes :: "'ns nodeTable \<Rightarrow> 'ns NodeInfo list" where
  "nodes p = concat (buckets p)"

text \<open>
  \<^verbatim>\<open>find\<close> returns a pointer to a copy of the first entry of the bucket whose digest
  compares equal, or \<^verbatim>\<open>nil\<close>.
\<close>

definition find_tbl :: "'ns NodeID \<Rightarrow> 'ns nodeTable \<Rightarrow> 'ns NodeInfo option" where
  "find_tbl id0 p =
     List.find (\<lambda>n. Cmp (Digest (ID n)) (Digest id0) = 0) (buckets p ! bucketOf p id0)"

text \<open>
  The slice expression \<^verbatim>\<open>n[len(n)-k:]\<close>: Go panics when the lower bound is negative
  or beyond the length.
\<close>

definition lastk :: "int \<Rightarrow> 'a list \<Rightarrow> error + 'a list" where
  "lastk k0 n =
     (let lo = int (length n) - k0
      in if lo < 0 \<or> int (length n) < lo then Inl Panic else Inr (drop (nat lo) n))"

text \<open>
  The loop of \<^verbatim>\<open>nearestNodes\<close>, \<^verbatim>\<open>for i := 0; i < bucketSize; i++\<close>, with the
  accumulated slice \<^verbatim>\<open>n\<close>.
\<close>

function nearest_loop ::
  "'ns nodeTable \<Rightarrow> int \<Rightarrow> int \<Rightarrow> 'ns NodeInfo list \<Rightarrow> error + 'ns NodeInfo list" where
  "nearest_loop p b i n =
     (if i < bucketSize then
        (let rb = b + i;
             n1 = (if rb < bucketSize then n @ buckets p ! nat rb else n);
             lb = b - i;
             n2 = (if 0 \<le> lb then n1 @ buckets p ! nat lb else n1)
         in if k p \<le> int (length n2) then lastk (k p) n2
            else nearest_loop p b (i + 1) n2)
      else Inr n)"
  by pat_completeness auto
termination
  by (relation "measure (\<lambda>(p, b, i, n). nat (bucketSize - i))") auto

declare nearest_loop.simps [simp del]

definition nearestNodes :: "'ns NodeID \<Rightarrow> 'ns nodeTable \<Rightarrow> error + 'ns NodeInfo list" where
  "nearestNodes id0 p =
     (let b = Log2int (Xor (Digest id0) (Digest (selfid p)));
          n = buckets p ! nat b
      in if k p < int (length n) then lastk (k p) n
         else nearest_loop p b 0 n)"

text \<open>A sequence of table operations; a panic ends the run.\<close>

datatype 'ns tbl_op = Insert "'ns NodeInfo" | Remove "'ns NodeID"

fun apply_tbl_op :: "'ns tbl_op \<Rightarrow> 'ns nodeTable \<Rightarrow> error + 'ns nodeTable" where
  "apply_tbl_op (Insert node) p = insert_tbl node p"
| "apply_tbl_op (Remove id0) p = Inr (remove_tbl id0 p)"

fun run_tbl :: "'ns tbl_op list \<Rightarrow> 'ns nodeTable \<Rightarrow> error + 'ns nodeTable" where
  "run_tbl [] p = Inr p"
| "run_tbl (x # xs) p =
     (case apply_tbl_op x p of Inl e \<Rightarrow> Inl e | Inr p' \<Rightarrow> run_tbl xs p')"

text \<open>
  The invariant of a table: 160 buckets; every entry sits in the bucket of its own
  distance to \<open>selfid\<close>; no bucket is longer than \<open>k\<close>; within a bucket no two entries
  have the same digest.
\<close>

definition tbl_ok :: "'ns nodeTable \<Rightarrow> bool" where
  "tbl_ok p \<longleftrightarrow>
     length (buckets p) = 160 \<and>
     (\<forall>b<160. (\<forall>n\<in>set (buckets p ! b). bucketOf p (ID n) = b) \<and>
              int (length (buckets p ! b)) \<le> k p \<and>
              distinct (map (\<lambda>n. Digest (ID n)) (buckets p ! b)))"

text \<open>
  The outward walk in the words of the specification, for comparison with
  \<open>nearestNodes\<close>: \<open>ring p b i\<close> is what the buckets \<open>b + i\<close> and \<open>b - i\<close> hold (those
  that exist), and \<open>walk p b r\<close> is everything at the distances \<open>1\<close> to \<open>r\<close> in the
  order of the walk.
\<close>

definition ring :: "'ns nodeTable \<Rightarrow> nat \<Rightarrow> nat \<Rightarrow> 'ns NodeInfo list" where
  "ring p b i =
     (if b + i < 160 then buckets p ! (b + i) else []) @
     (if i \<le> b then buckets p ! (b - i) else [])"

definition walk :: "'ns nodeTable \<Rightarrow> nat \<Rightarrow> nat \<Rightarrow> 'ns NodeInfo list" where
  "walk p b r = concat (map (ring p b) [1..<Suc r])"

text \<open>The same from any first distance \<open>i\<close> up to, not including, \<open>j\<close>.\<close>

definition rings :: "'ns nodeTable \<Rightarrow> nat \<Rightarrow> nat \<Rightarrow> nat \<Rightarrow> 'ns NodeInfo list" where
  "rings p b i j = concat (map (ring p b) [i..<j])"

section \<open>DHT\<close>

text \<open>
  The DHT of \<^verbatim>\<open>dht.go\<close> uses identifiers without a namespace, so its table is a
  \<^typ>\<open>unit nodeTable\<close>.  An argument of a command is a Go \<^verbatim>\<open>interface{}\<close>: a string, a
  list of string maps (each written as the list of its key/value pairs), or anything else.
\<close>

datatype arg = AStr string | ANodes "(string \<times> string) list list" | AOther

record dhtRpcCommand =
  Id_cmd :: string
  Method :: string
  Args :: "string \<rightharpoonup> arg"

record dhtPacket =
  dst :: "unit NodeID"
  payload :: string

record dhtRpcReturn =
  command :: dhtRpcCommand
  addr :: string

text \<open>
  The msgpack codec and SHA-1 are libraries outside the repository; they are parameters.
  \<open>marshal\<close> and \<open>unmarshal\<close> return \<open>None\<close> where the library returns an error.
\<close>

record extern =
  marshal :: "dhtRpcCommand \<Rightarrow> string option"
  unmarshal :: "string \<Rightarrow> dhtRpcCommand option"
  sha1 :: "string \<Rightarrow> string"

text \<open>\<^verbatim>\<open>rpcReturnMap\<close>; a channel is named by the number it was allocated under.\<close>

definition push :: "string \<Rightarrow> nat \<Rightarrow> (string \<rightharpoonup> nat) \<Rightarrow> (string \<rightharpoonup> nat)" where
  "push i c chmap = chmap(i \<mapsto> c)"

definition pop :: "string \<Rightarrow> (string \<rightharpoonup> nat) \<Rightarrow> nat option \<times> (string \<rightharpoonup> nat)" where
  "pop i chmap = (case chmap i of Some c \<Rightarrow> (Some c, chmap(i := None)) | None \<Rightarrow> (None, chmap))"

text \<open>\<^verbatim>\<open>keyValueStore\<close>.\<close>

definition kvs_set :: "string \<Rightarrow> string \<Rightarrow> (string \<rightharpoonup> string) \<Rightarrow> (string \<rightharpoonup> string)" where
  "kvs_set key0 v storage = storage(key0 \<mapsto> v)"

definition kvs_get :: "string \<Rightarrow> (string \<rightharpoonup> string) \<Rightarrow> string \<times> bool" where
  "kvs_get key0 storage = (case storage key0 of Some v \<Rightarrow> (v, True) | None \<Rightarrow> ([], False))"

text \<open>
  The state of a \<^verbatim>\<open>dht\<close>.  \<open>rpc\<close> is the content of the buffered channel of outgoing
  packets, oldest first; its capacity of 100, at which a send waits for a reader, is not
  modelled.  \<open>chans\<close> holds the content of every reply channel and \<open>nchans\<close> counts
  the channels made so far, so that \<^verbatim>\<open>make(chan ...)\<close> returns a channel no one else
  holds.  The logger and the exit channel are left out.
\<close>

record dht =
  info :: "unit NodeInfo"
  table :: "unit nodeTable"
  dht_k :: int
  kvs :: "string \<rightharpoonup> string"
  rpcRet :: "string \<rightharpoonup> nat"
  rpc :: "dhtPacket list"
  chans :: "nat \<Rightarrow> dhtRpcReturn list"
  nchans :: nat

definition newDht :: "int \<Rightarrow> unit NodeInfo \<Rightarrow> dht" where
  "newDht k0 info0 =
     \<lparr>info = info0, table = newNodeTable k0 (ID info0), dht_k = k0, kvs = Map.empty,
      rpcRet = Map.empty, rpc = [], chans = (\<lambda>_. []), nchans = 0\<rparr>"

text \<open>
  \<^verbatim>\<open>big.Int.SetBytes\<close> and \<^verbatim>\<open>big.Int.Bytes\<close>: big-endian, the latter without leading
  zero bytes and of the absolute value.
\<close>

definition SetBytes :: "string \<Rightarrow> int" where
  "SetBytes bs = foldl (\<lambda>a c. a * 256 + of_char c) 0 bs"

fun Bytes_nat :: "nat \<Rightarrow> string" where
  "Bytes_nat n = (if n = 0 then [] else Bytes_nat (n div 256) @ [char_of (n mod 256)])"

declare Bytes_nat.simps [simp del]

definition Bytes :: "int \<Rightarrow> string" where
  "Bytes x = Bytes_nat (nat \<bar>x\<bar>)"

definition NewNodeId :: "string \<Rightarrow> unit NodeID" where
  "NewNodeId data = \<lparr>NS = (), Digest = SetBytes data\<rparr>"

definition newRpcCommand :: "string \<Rightarrow> string \<Rightarrow> (string \<rightharpoonup> arg) \<Rightarrow> dhtRpcCommand" where
  \<comment> \<open>the first argument is the 20 bytes that \<^verbatim>\<open>rand.Read\<close> delivered\<close>
  "newRpcCommand rid method args = \<lparr>Id_cmd = rid, Method = method, Args = args\<rparr>"

definition newRpcReturnCommand :: "string \<Rightarrow> (string \<rightharpoonup> arg) \<Rightarrow> dhtRpcCommand" where
  "newRpcReturnCommand i args = \<lparr>Id_cmd = i, Method = [], Args = args\<rparr>"

text \<open>
  \<^verbatim>\<open>sendPacket\<close>: marshal (an error panics), make a channel, register it under the
  command's id, then put the packet on \<open>rpc\<close>; the channel is returned.
\<close>

definition sendPacket ::
  "extern \<Rightarrow> unit NodeID \<Rightarrow> dhtRpcCommand \<Rightarrow> dht \<Rightarrow> error + (nat \<times> dht)" where
  "sendPacket ex dst0 cmd p =
     (case marshal ex cmd of
        None \<Rightarrow> Inl Panic
      | Some data \<Rightarrow>
          let i = Id_cmd cmd;
              ch = nchans p;
              p1 = p\<lparr>nchans := Suc ch\<rparr>;
              p2 = p1\<lparr>rpcRet := push i ch (rpcRet p1)\<rparr>;
              p3 = p2\<lparr>rpc := rpc p2 @ [\<lparr>dst = dst0, payload = data\<rparr>]\<rparr>
          in Inr (ch, p3))"

definition sendPing :: "extern \<Rightarrow> string \<Rightarrow> unit NodeID \<Rightarrow> dht \<Rightarrow> error + dht" where
  \<comment> \<open>the goroutine that waits for the reply only logs it\<close>
  "sendPing ex rid dst0 p =
     (case sendPacket ex dst0 (newRpcCommand rid ''ping'' Map.empty) p of
        Inl e \<Rightarrow> Inl e
      | Inr (ch, p') \<Rightarrow> Inr p')"

definition addNode :: "extern \<Rightarrow> string \<Rightarrow> unit NodeInfo \<Rightarrow> dht \<Rightarrow> error + dht" where
  "addNode ex rid node p =
     (case insert_tbl node (table p) of
        Inl e \<Rightarrow> Inl e
      | Inr t \<Rightarrow> sendPing ex rid (ID node) (p\<lparr>table := t\<rparr>))"

definition getNodeInfo :: "unit NodeID \<Rightarrow> dht \<Rightarrow> unit NodeInfo option" where
  "getNodeInfo id0 p = find_tbl id0 (table p)"

text \<open>The list sent under \<^verbatim>\<open>"nodes"\<close>: one two-key map per node.\<close>

definition nodes_ary :: "unit NodeInfo list \<Rightarrow> (string \<times> string) list list" where
  "nodes_ary ns = map (\<lambda>n. [(''id'', Bytes (Digest (ID n))), (''addr'', Addr n)]) ns"

text \<open>
  The reply of \<^verbatim>\<open>processPacket\<close> to the sender: \<^verbatim>\<open>p.sendPacket(src.Id,
  newRpcReturnCommand(command.Id, args))\<close>, the returned channel dropped.
\<close>

definition reply ::
  "extern \<Rightarrow> unit NodeInfo \<Rightarrow> dhtRpcCommand \<Rightarrow> (string \<rightharpoonup> arg) \<Rightarrow> dht \<Rightarrow> error + dht" where
  "reply ex src0 cmd args p =
     (case sendPacket ex (ID src0) (newRpcReturnCommand (Id_cmd cmd) args) p of
        Inl e \<Rightarrow> Inl e
      | Inr (ch, p') \<Rightarrow> Inr p')"

text \<open>
  \<^verbatim>\<open>processPacket\<close>.  In the \<^verbatim>\<open>find-node\<close> case the slice \<^verbatim>\<open>[]byte(id)[:20]\<close> of a
  shorter string is taken to panic.
\<close>

definition processPacket :: "extern \<Rightarrow> unit NodeInfo \<Rightarrow> string \<Rightarrow> dht \<Rightarrow> error + dht" where
  "processPacket ex src0 payload0 p0 =
     (case unmarshal ex payload0 of
        None \<Rightarrow> Inr p0
      | Some cmd \<Rightarrow>
          (case insert_tbl src0 (table p0) of
             Inl e \<Rightarrow> Inl e
           | Inr t \<Rightarrow>
               let p = p0\<lparr>table := t\<rparr> in
               if Method cmd = ''ping'' then reply ex src0 cmd Map.empty p
               else if Method cmd = ''find-node'' then
                 (case Args cmd ''id'' of
                    Some (AStr i) \<Rightarrow>
                      if length i < 20 then Inl Panic
                      else
                        (case nearestNodes (NewNodeId (take 20 i)) (table p) of
                           Inl e \<Rightarrow> Inl e
                         | Inr ns \<Rightarrow> reply ex src0 cmd [''nodes'' \<mapsto> ANodes (nodes_ary ns)] p)
                  | _ \<Rightarrow> Inr p)
               else if Method cmd = ''store'' then
                 (case Args cmd ''key'' of
                    Some (AStr key0) \<Rightarrow>
                      (case Args cmd ''value'' of
                         Some (AStr val) \<Rightarrow> Inr (p\<lparr>kvs := kvs_set key0 val (kvs p)\<rparr>)
                       | _ \<Rightarrow> Inr p)
                  | _ \<Rightarrow> Inr p)
               else if Method cmd = ''find-value'' then
                 (case Args cmd ''key'' of
                    Some (AStr key0) \<Rightarrow>
                      (case kvs_get key0 (kvs p) of
                         (val, True) \<Rightarrow> reply ex src0 cmd [''value'' \<mapsto> AStr val] p
                       | (_, False) \<Rightarrow>
                           (case nearestNodes (NewNodeId (sha1 ex key0)) (table p) of
                              Inl e \<Rightarrow> Inl e
                            | Inr ns \<Rightarrow> reply ex src0 cmd [''nodes'' \<mapsto> ANodes (nodes_ary ns)] p))
                  | _ \<Rightarrow> Inr p)
               else if Method cmd = [] then
                 (case pop (Id_cmd cmd) (rpcRet p) of
                    (Some ch, m) \<Rightarrow>
                      Inr (p\<lparr>rpcRet := m,
                             chans := (chans p)(ch := chans p ch @ [\<lparr>command = cmd, addr = Addr src0\<rparr>])\<rparr>)
                  | (None, m) \<Rightarrow> Inr (p\<lparr>rpcRet := m\<rparr>))
               else Inr p))"

text \<open>
  The two writes of \<^verbatim>\<open>sendPacket\<close> to shared state, in the order of the source: the
  state after \<^verbatim>\<open>p.rpcRet.push(id, ch)\<close> and the state after
  \<^verbatim>\<open>p.rpc <- dhtPacket{...}\<close>.  The second is the state \<open>sendPacket\<close> returns.
\<close>

definition sendPacket_states ::
  "extern \<Rightarrow> unit NodeID \<Rightarrow> dhtRpcCommand \<Rightarrow> dht \<Rightarrow> error + (nat \<times> dht list)" where
  "sendPacket_states ex dst0 cmd p =
     (case marshal ex cmd of
        None \<Rightarrow> Inl Panic
      | Some data \<Rightarrow>
          let i = Id_cmd cmd;
              ch = nchans p;
              p1 = p\<lparr>nchans := Suc ch\<rparr>;
              p2 = p1\<lparr>rpcRet := push i ch (rpcRet p1)\<rparr>;
              p3 = p2\<lparr>rpc := rpc p2 @ [\<lparr>dst = dst0, payload = data\<rparr>]\<rparr>
          in Inr (ch, [p2, p3]))"







section \<open>Router\<close>

text \<open>An identifier of the router carries the four bytes of its namespace.\<close>

type_synonym namespace = "8 word list"

text \<open>
  Modelled from the spec: the packet type \<^verbatim>\<open>internal.Packet\<close>, whose declaration is
  not among the files at hand.  Its fields are those the router reads and writes and the
  wire format lists, \<^verbatim>\<open>{Dst, Src, Type, Payload, TTL: uint8}\<close>.
\<close>

record Packet =
  Dst :: "namespace NodeID"
  Src :: "namespace NodeID"
  Type :: string
  Payload :: string
  TTL :: "8 word"

record Message =
  Node :: "namespace NodeID"
  Payload_msg :: string
  ID_msg :: string

text \<open>
  What the router takes from other packages, as parameters: the string form of an
  identifier, the global namespace, the DHT (\<open>'d\<close>) with its constructor and queries,
  the session (\<open>'s\<close>) with its peer identifier, and \<open>connect\<close> for resolving an address,
  dialling it and running the handshake (\<open>None\<close> when any of the three fails).
\<close>

record ('d, 's) world =
  String :: "namespace NodeID \<Rightarrow> string"
  GlobalNamespace :: namespace
  NewDHT :: "int \<Rightarrow> namespace NodeID \<Rightarrow> namespace NodeID \<Rightarrow> 'd"
  KnownNodes :: "'d \<Rightarrow> namespace NodeInfo list"
  GetNodeInfo :: "'d \<Rightarrow> namespace NodeID \<Rightarrow> namespace NodeInfo option"
  session_ID :: "'s \<Rightarrow> namespace NodeID"
  connect :: "string \<Rightarrow> 's option"

text \<open>
  Modelled from the spec: \<^verbatim>\<open>utils.NewNodeID(ns, digest)\<close> of the namespaced identifier,
  which "constructs; no validation beyond length".
\<close>

definition NewNodeID :: "namespace \<Rightarrow> int \<Rightarrow> namespace NodeID" where
  "NewNodeID ns digest = \<lparr>NS = ns, Digest = digest\<rparr>"

text \<open>
  The state of a \<^verbatim>\<open>Router\<close>.  The private key is present through its digest.
  \<open>groupDht\<close> is the Go map as the list of its entries, keys distinct; a \<^verbatim>\<open>range\<close> over
  it, whose order Go leaves open, takes them in list order.  \<open>send\<close> and \<open>recv\<close> are
  the contents of the two buffered channels, oldest first, without their capacity of 100.
\<close>

record ('d, 's) Router =
  id_router :: "namespace NodeID"
  mainDht :: 'd
  groupDht :: "(string \<times> 'd) list"
  key_Digest :: int
  sessions :: "string \<rightharpoonup> 's"
  queuedPackets :: "Packet list"
  recv :: "Message list"
  send :: "Packet list"

definition Join ::
  "('d, 's) world \<Rightarrow> namespace NodeID \<Rightarrow> ('d, 's) Router \<Rightarrow> string option \<times> ('d, 's) Router" where
  "Join w grp p =
     (case map_of (groupDht p) (String w grp) of
        None \<Rightarrow>
          (None, p\<lparr>groupDht := groupDht p @ [(String w grp, NewDHT w 10 (id_router p) grp)]\<rparr>)
      | Some _ \<Rightarrow> (Some ''already joined'', p))"

definition Leave ::
  "('d, 's) world \<Rightarrow> namespace NodeID \<Rightarrow> ('d, 's) Router \<Rightarrow> string option \<times> ('d, 's) Router" where
  "Leave w grp p =
     (case map_of (groupDht p) (String w grp) of
        Some _ \<Rightarrow> (None, p\<lparr>groupDht := filter (\<lambda>e. fst e \<noteq> String w grp) (groupDht p)\<rparr>)
      | None \<Rightarrow> (Some ''not joined'', p))"

definition makePacket ::
  "namespace NodeID \<Rightarrow> string \<Rightarrow> string \<Rightarrow> ('d, 's) Router \<Rightarrow> Packet \<times> string option" where
  "makePacket dst0 typ payload0 p =
     (\<lparr>Dst = dst0, Src = NewNodeID (NS dst0) (key_Digest p), Type = typ,
       Payload = payload0, TTL = 3\<rparr>, None)"

definition SendMessage ::
  "namespace NodeID \<Rightarrow> string \<Rightarrow> ('d, 's) Router \<Rightarrow> string option \<times> ('d, 's) Router" where
  "SendMessage dst0 payload0 p =
     (case makePacket dst0 ''msg'' payload0 p of
        (pkt, Some err) \<Rightarrow> (Some err, p)
      | (pkt, None) \<Rightarrow> (None, p\<lparr>send := send p @ [pkt]\<rparr>))"

definition addSession :: "('d, 's) world \<Rightarrow> 's \<Rightarrow> ('d, 's) Router \<Rightarrow> ('d, 's) Router" where
  "addSession w s p =
     (let i = String w (session_ID w s)
      in case sessions p i of
           None \<Rightarrow> p\<lparr>sessions := (sessions p)(i \<mapsto> s)\<rparr>
         | Some _ \<Rightarrow> p)"

text \<open>
  The search of \<^verbatim>\<open>getDirectSession\<close> through the group DHTs:
  \<^verbatim>\<open>for _, d := range p.groupDht { info = d.GetNodeInfo(id); if info != nil { break } }\<close>.
\<close>

fun group_info ::
  "('d, 's) world \<Rightarrow> namespace NodeID \<Rightarrow> (string \<times> 'd) list \<Rightarrow> namespace NodeInfo option" where
  "group_info w i [] = None"
| "group_info w i (e # es) =
     (case GetNodeInfo w (snd e) i of
        Some n \<Rightarrow> Some n
      | None \<Rightarrow> group_info w i es)"

text \<open>
  \<^verbatim>\<open>getDirectSession\<close>; the reader goroutine started for a new session is not part of
  this step.
\<close>

definition getDirectSession ::
  "('d, 's) world \<Rightarrow> namespace NodeID \<Rightarrow> ('d, 's) Router \<Rightarrow> 's option \<times> ('d, 's) Router" where
  "getDirectSession w i p =
     (case sessions p (String w i) of
        Some s \<Rightarrow> (Some s, p)
      | None \<Rightarrow>
          (let info0 = (case GetNodeInfo w (mainDht p) i of
                          Some n \<Rightarrow> Some n
                        | None \<Rightarrow> group_info w i (groupDht p))
           in case info0 of
                None \<Rightarrow> (None, p)
              | Some n \<Rightarrow>
                  (case connect w (Addr n) of
                     None \<Rightarrow> (None, p)
                   | Some s \<Rightarrow> (Some s, addSession w s p))))"

text \<open>The loop of \<^verbatim>\<open>getSessions\<close> over the known nodes of a group.\<close>

fun group_sessions ::
  "('d, 's) world \<Rightarrow> namespace NodeInfo list \<Rightarrow> ('d, 's) Router \<Rightarrow> 's list \<times> ('d, 's) Router" where
  "group_sessions w [] p = ([], p)"
| "group_sessions w (n # ns) p =
     (case getDirectSession w (ID n) p of
        (Some s, p1) \<Rightarrow> (case group_sessions w ns p1 of (ss, p2) \<Rightarrow> (s # ss, p2))
      | (None, p1) \<Rightarrow> group_sessions w ns p1)"

definition getSessions ::
  "('d, 's) world \<Rightarrow> namespace NodeID \<Rightarrow> ('d, 's) Router \<Rightarrow> 's list \<times> ('d, 's) Router" where
  "getSessions w i p =
     (if NS i = GlobalNamespace w then
        (case getDirectSession w i p of
           (Some s, p1) \<Rightarrow> ([s], p1)
         | (None, p1) \<Rightarrow> ([], p1))
      else
        (case map_of (groupDht p) (String w i) of
           Some d \<Rightarrow> group_sessions w (KnownNodes w d) p
         | None \<Rightarrow> ([], p)))"

text \<open>
  The forwarding loop of \<^verbatim>\<open>readSession\<close>: for every known node of the group, the packet
  is written to each of its sessions.  The result lists the writes in order; the error a
  write may return is ignored by the source.
\<close>

fun forward ::
  "('d, 's) world \<Rightarrow> Packet \<Rightarrow> namespace NodeInfo list \<Rightarrow> ('d, 's) Router \<Rightarrow>
     ('s \<times> Packet) list \<times> ('d, 's) Router" where
  "forward w pkt [] p = ([], p)"
| "forward w pkt (n # ns) p =
     (case getSessions w (ID n) p of
        (ss, p1) \<Rightarrow>
          (case forward w pkt ns p1 of
             (ws, p2) \<Rightarrow> (map (\<lambda>s. (s, pkt)) ss @ ws, p2)))"

text \<open>
  One turn of the loop of \<^verbatim>\<open>readSession\<close> for a packet that \<^verbatim>\<open>s.Read()\<close> returned
  without error; \<open>now\<close> is the encoded time that becomes the message's \<^verbatim>\<open>ID\<close>.
\<close>

definition readSession_packet ::
  "('d, 's) world \<Rightarrow> string \<Rightarrow> Packet \<Rightarrow> ('d, 's) Router \<Rightarrow>
     ('s \<times> Packet) list \<times> ('d, 's) Router" where
  "readSession_packet w now pkt0 p0 =
     (let (pkt, ws, p) =
            (if NS (Src pkt0) \<noteq> GlobalNamespace w then
               (case map_of (groupDht p0) (String w (Dst pkt0)) of
                  Some d \<Rightarrow>
                    (let pkt1 = pkt0\<lparr>TTL := TTL pkt0 - 1\<rparr>
                     in if 0 < TTL pkt1 then
                          (case forward w pkt1 (KnownNodes w d) p0 of (ws, p1) \<Rightarrow> (pkt1, ws, p1))
                        else (pkt1, [], p0))
                | None \<Rightarrow> (pkt0, [], p0))
             else (pkt0, [], p0))
      in if Type pkt = ''msg''
         then (ws, p\<lparr>recv := recv p @ [\<lparr>Node = Src pkt, Payload_msg = Payload pkt, ID_msg = now\<rparr>]\<rparr>)
         else (ws, p))"

section \<open>Example values\<close>

text \<open>
  A peer with a given digest, as the table test builds them
  (\<^verbatim>\<open>nodeInfo{Id: id, Addr: nil}\<close>), and the identifier with digest 0 that the test
  uses as \<open>selfid\<close>.
\<close>

definition peer :: "int \<Rightarrow> unit NodeInfo" where
  "peer d = \<lparr>ID = \<lparr>NS = (), Digest = d\<rparr>, Addr = ''<nil>''\<rparr>"

definition self0 :: "unit NodeID" where
  "self0 = \<lparr>NS = (), Digest = 0\<rparr>"

text \<open>
  Stand-ins for the libraries: a codec that knows two payloads, a find-value request for
  the key \<open>alpha\<close> and a reply to the request \<open>q1\<close>, and a hash.
\<close>

definition ex0 :: extern where
  "ex0 =
     \<lparr>marshal = (\<lambda>c. Some (Method c @ '':'' @ Id_cmd c)),
      unmarshal = (\<lambda>s.
        if s = ''fv'' then Some \<lparr>Id_cmd = ''r1'', Method = ''find-value'', Args = [''key'' \<mapsto> AStr ''alpha'']\<rparr>
        else if s = ''re'' then Some \<lparr>Id_cmd = ''q1'', Method = [], Args = Map.empty\<rparr>
        else None),
      sha1 = (\<lambda>s. [CHR 0x06])\<rparr>"

text \<open>
  A stand-in for the router's surroundings: a DHT is the list of the nodes it knows, a
  session is the identifier of its peer, the global namespace is \<^verbatim>\<open>{1, 1, 1, 1}\<close> as
  in the earlier router, and one address can be dialled.
\<close>

definition w0 :: "(namespace NodeInfo list, namespace NodeID) world" where
  "w0 =
     \<lparr>String = (\<lambda>i. map (\<lambda>b. char_of (unat b)) (NS i) @ Bytes (Digest i)),
      GlobalNamespace = [1, 1, 1, 1],
      NewDHT = (\<lambda>k0 i root. []),
      KnownNodes = (\<lambda>d. d),
      GetNodeInfo = (\<lambda>d i. List.find (\<lambda>n. ID n = i) d),
      session_ID = (\<lambda>s. s),
      connect = (\<lambda>a. if a = ''10.0.0.5:9200'' then Some \<lparr>NS = [1, 1, 1, 1], Digest = 5\<rparr> else None)\<rparr>"

definition member :: "int \<Rightarrow> namespace NodeInfo" where
  "member d = \<lparr>ID = \<lparr>NS = [1, 1, 1, 1], Digest = d\<rparr>, Addr = ''10.0.0.5:9200''\<rparr>"

definition group0 :: "namespace NodeID" where
  "group0 = \<lparr>NS = [2, 2, 2, 2], Digest = 9\<rparr>"

text \<open>
  A router with digest 1 that has joined \<open>group0\<close>, knows the members 2 and 5 of the
  group and has a session with member 2.
\<close>

definition router0 :: "(namespace NodeInfo list, namespace NodeID) Router" where
  "router0 =
     \<lparr>id_router = \<lparr>NS = [1, 1, 1, 1], Digest = 1\<rparr>,
      mainDht = [],
      groupDht = [(String w0 group0, [member 2, member 5])],
      key_Digest = 1,
      sessions = [String w0 (ID (member 2)) \<mapsto> ID (member 2)],
      queuedPackets = [],
      recv = [],
      send = []\<rparr>"

text \<open>
  A second stand-in for the libraries, whose codec writes out the method, the id and what
  the arguments \<open>value\<close> and \<open>nodes\<close> hold, and knows four payloads: a find-value
  request for the key \<open>alpha\<close>, a ping request with the id \<open>q1\<close>, and replies to the
  requests \<open>q1\<close> and \<open>zz\<close>.  Its hash is 20 bytes that read as the digest 4161.
\<close>

fun show_arg :: "arg option \<Rightarrow> string" where
  "show_arg None = []"
| "show_arg (Some (AStr s)) = s"
| "show_arg (Some (ANodes ns)) =
     concat (map (\<lambda>m. ''['' @ concat (map (\<lambda>(a, b). a @ ''='' @ b @ '';'') m) @ '']'') ns)"
| "show_arg (Some AOther) = ''?''"

definition ex1 :: extern where
  "ex1 =
     \<lparr>marshal = (\<lambda>c. Some (Method c @ '':'' @ Id_cmd c @ '':value='' @ show_arg (Args c ''value'') @
                          '':nodes='' @ show_arg (Args c ''nodes''))),
      unmarshal = (\<lambda>s.
        if s = ''fv'' then Some \<lparr>Id_cmd = ''r1'', Method = ''find-value'', Args = [''key'' \<mapsto> AStr ''alpha'']\<rparr>
        else if s = ''pg'' then Some \<lparr>Id_cmd = ''q1'', Method = ''ping'', Args = Map.empty\<rparr>
        else if s = ''re'' then Some \<lparr>Id_cmd = ''q1'', Method = [], Args = Map.empty\<rparr>
        else if s = ''rz'' then Some \<lparr>Id_cmd = ''zz'', Method = [], Args = Map.empty\<rparr>
        else None),
      sha1 = (\<lambda>s. replicate 18 (CHR 0x00) @ [CHR 0x10, CHR 0x41])\<rparr>"

text \<open>
  A peer whose digest is written with the two letters \<open>AB\<close> (bucket 13 of a table around
  digest 0), one written \<open>B\<close> (bucket 5), and its address.
\<close>

definition peerAB :: "unit NodeInfo" where
  "peerAB = \<lparr>ID = \<lparr>NS = (), Digest = 16706\<rparr>, Addr = ''10.0.0.7:9200''\<rparr>"

definition peerB :: "unit NodeInfo" where
  "peerB = \<lparr>ID = \<lparr>NS = (), Digest = 66\<rparr>, Addr = ''10.0.0.8:9200''\<rparr>"

section \<open>The bucket index\<close>

lemma div1: fixes b :: int assumes "2 ^ n \<le> b" "b < 2 ^ Suc n" shows "b div 2 ^ n = 1"
proof -
  have "(2 ^ n + (b - 2 ^ n)) div 2 ^ n = (b - 2 ^ n) div 2 ^ n + 1"
    by (rule div_add_self1) simp
  moreover have "(b - 2 ^ n) div 2 ^ n = 0"
    using assms by (intro div_pos_pos_trivial) auto
  ultimately show ?thesis by simp
qed

lemma bit_top_int:
  fixes b :: int
  assumes "0 \<le> b" "b < 2 ^ Suc n"
  shows "bit b n \<longleftrightarrow> 2 ^ n \<le> b"
proof (cases "2 ^ n \<le> b")
  case True
  then show ?thesis using div1[OF True assms(2)] by (simp add: bit_iff_odd)
next
  case False
  then have "b div 2 ^ n = 0" using assms by (simp add: div_pos_pos_trivial)
  then show ?thesis using False by (simp add: bit_iff_odd)
qed

lemma bitlen_eqI:
  assumes "2 ^ n \<le> b" "b < 2 ^ Suc n"
  shows "bitlen b = int n + 1"
proof -
  have "(0::int) < 2 ^ n" by simp
  then have b0: "0 < b" using assms(1) by linarith
  have "2 ^ n \<le> nat b" using assms(1) by simp
  moreover have "nat b < 2 ^ (n + 1)" using assms(2) b0 by (simp add: nat_less_iff)
  ultimately have "\<lfloor>log (real 2) (real (nat b))\<rfloor> = int n"
    by (intro floor_log_nat_eq_if) auto
  then show ?thesis using b0 by (simp add: bitlen_alt_def)
qed

lemma Log2int_loop_eq:
  "0 < b \<Longrightarrow> b < 2 ^ Suc n \<Longrightarrow> Log2int_loop b (int n) l = l - int n + (bitlen b - 1)"
proof (induction n arbitrary: l)
  case 0
  then have "b = 1" by simp
  then show ?case by (subst Log2int_loop.simps) (simp add: bitlen_alt_def)
next
  case (Suc n)
  have n: "nat (int (Suc n)) = Suc n" by simp
  show ?case
  proof (cases "bit b (Suc n)")
    case True
    then have "2 ^ Suc n \<le> b" using Suc.prems bit_top_int[of b "Suc n"] by simp
    then have "bitlen b = int (Suc n) + 1" using Suc.prems by (intro bitlen_eqI) auto
    then show ?thesis using True by (subst Log2int_loop.simps) (simp only: n, simp)
  next
    case False
    then have "b < 2 ^ Suc n" using Suc.prems bit_top_int[of b "Suc n"] by simp
    from Suc.IH[OF Suc.prems(1) this, of "l - 1"] False show ?thesis
      by (subst Log2int_loop.simps) (simp only: n, simp)
  qed
qed

lemma Log2int_loop_range: "-1 \<le> i \<Longrightarrow> l - (i + 1) \<le> Log2int_loop b i l \<and> Log2int_loop b i l \<le> l"
proof (induction b i l rule: Log2int_loop.induct)
  case (1 b i l)
  show ?case
  proof (cases "0 \<le> i \<and> \<not> bit b (nat i)")
    case True
    then have "l - 1 - (i - 1 + 1) \<le> Log2int_loop b (i - 1) (l - 1) \<and> Log2int_loop b (i - 1) (l - 1) \<le> l - 1"
      using 1 by simp
    moreover have "Log2int_loop b i l = Log2int_loop b (i - 1) (l - 1)"
      using True by (subst Log2int_loop.simps) simp
    ultimately show ?thesis by simp
  next
    case False
    then have "Log2int_loop b i l = l" by (subst Log2int_loop.simps) auto
    then show ?thesis using 1 by simp
  qed
qed

lemma Log2int_range: "0 \<le> Log2int x \<and> Log2int x < 160"
  using Log2int_loop_range[of 160 159 "x + 1"] by (auto simp: Log2int_def Let_def)

lemma bucketOf_less: "bucketOf p id0 < 160"
  using Log2int_range[of "Xor (Digest id0) (Digest (selfid p))"] unfolding bucketOf_def by linarith

lemma Cmp_eq_0 [simp]: "Cmp a b = 0 \<longleftrightarrow> a = b"
  by (simp add: Cmp_def)

lemma Log2int_bitlen:
  assumes "0 \<le> x" "x < 2 ^ 160"
  shows "Log2int_loop (x + 1) 160 159 = bitlen (x + 1) - 2"
proof -
  have "Log2int_loop (x + 1) (int 160) 159 = 159 - int 160 + (bitlen (x + 1) - 1)"
    using assms by (intro Log2int_loop_eq) auto
  then show ?thesis by simp
qed

text \<open>
  Claim C3.  For a 160-bit identifier \<open>x\<close> (\<open>0 \<le> x < 2 ^ 160\<close>), \<open>Log2int x\<close> is
  \<open>\<lfloor>log\<^sub>2 (x + 1)\<rfloor> - 1\<close>, clamped below at 0.  Said with the highest set bit of \<open>x + 1\<close>:
  for \<open>x \<ge> 1\<close> that bit is at position \<open>Log2int x + 1\<close>.  In particular
  \<open>Log2int 0 = 0\<close> and \<open>Log2int (2 ^ 160 - 1) = 159\<close>.
\<close>

theorem Log2int_floor_log:
  assumes "0 \<le> x" "x < 2 ^ 160"
  shows "Log2int x = max 0 (\<lfloor>log 2 (real_of_int (x + 1))\<rfloor> - 1) \<and>
         (1 \<le> x \<longrightarrow> 2 ^ nat (Log2int x + 1) \<le> x + 1 \<and> x + 1 < 2 ^ nat (Log2int x + 2)) \<and>
         Log2int 0 = 0 \<and> Log2int (2 ^ 160 - 1) = 159"
proof -
  have l: "Log2int_loop (x + 1) 160 159 = bitlen (x + 1) - 2"
    using assms by (rule Log2int_bitlen)
  have a: "Log2int x = max 0 (\<lfloor>log 2 (real_of_int (x + 1))\<rfloor> - 1)"
    using l assms by (auto simp: Log2int_def bitlen_alt_def Let_def)
  have b: "2 ^ nat (Log2int x + 1) \<le> x + 1 \<and> x + 1 < 2 ^ nat (Log2int x + 2)" if x1: "1 \<le> x"
  proof -
    have pos: "0 < x + 1" using x1 by simp
    have "2 ^ 1 \<le> x + 1" using x1 by simp
    have "2 \<le> bitlen (x + 1)"
    proof (rule ccontr)
      assume "\<not> 2 \<le> bitlen (x + 1)"
      then have "nat (bitlen (x + 1)) \<le> 1" by simp
      then have "(2::int) ^ nat (bitlen (x + 1)) \<le> 2 ^ 1" by (intro power_increasing) auto
      then show False using bitlen_bounds[OF pos] x1 by simp
    qed
    then have "Log2int x = bitlen (x + 1) - 2" using l by (simp add: Log2int_def Let_def)
    then have "nat (Log2int x + 1) = nat (bitlen (x + 1) - 1)"
      and "nat (Log2int x + 2) = nat (bitlen (x + 1))" by simp_all
    then show ?thesis using bitlen_bounds[OF pos] by presburger
  qed
  have c: "Log2int 0 = 0" by (simp add: Log2int_def Log2int_loop.simps)
  have d: "Log2int (2 ^ 160 - 1) = 159" by (simp add: Log2int_def Log2int_loop.simps)
  show ?thesis using a b c d by blast
qed

theorem Log2int_floor_log_witness:
  "(0::int) \<le> 6 \<and> (6::int) < 2 ^ 160 \<and> (1::int) \<le> 6 \<and> Log2int 6 = 1 \<and>
   Log2int 6 = max 0 (\<lfloor>log 2 (real_of_int (6 + 1))\<rfloor> - 1) \<and>
   (2::int) ^ nat (Log2int 6 + 1) \<le> 6 + 1 \<and> (6::int) + 1 < 2 ^ nat (Log2int 6 + 2)"
proof -
  have e: "Log2int 6 = 1" by (simp add: Log2int_def Log2int_loop.simps)
  have h: "(0::int) \<le> 6" "(6::int) < 2 ^ 160" by simp_all
  from Log2int_floor_log[OF h] e show ?thesis by simp
qed

section \<open>The routing table keeps its invariant\<close>

lemma set_remove_loop: "set (remove_loop d ns) \<subseteq> set ns"
  by (induction ns) auto

lemma length_remove_loop: "length (remove_loop d ns) \<le> length ns"
  by (induction ns) auto

lemma distinct_remove_loop:
  "distinct (map (\<lambda>n. Digest (ID n)) ns) \<Longrightarrow> distinct (map (\<lambda>n. Digest (ID n)) (remove_loop d ns))"
proof (induction ns)
  case Nil
  then show ?case by simp
next
  case (Cons n ns)
  then show ?case using set_remove_loop[of d ns] by auto
qed

lemma remove_loop_absent:
  "distinct (map (\<lambda>n. Digest (ID n)) ns) \<Longrightarrow> d \<notin> (\<lambda>n. Digest (ID n)) ` set (remove_loop d ns)"
proof (induction ns)
  case Nil
  then show ?case by simp
next
  case (Cons n ns)
  then show ?case by auto
qed

lemma bucketOf_remove [simp]: "bucketOf (remove_tbl i p) j = bucketOf p j"
  by (simp add: bucketOf_def remove_tbl_def Let_def)

lemma k_remove [simp]: "k (remove_tbl i p) = k p"
  by (simp add: remove_tbl_def Let_def)

lemma tbl_ok_new: "0 \<le> k0 \<Longrightarrow> tbl_ok (newNodeTable k0 s)"
  by (simp add: tbl_ok_def newNodeTable_def bucketSize_def)

lemma tbl_ok_remove:
  assumes "tbl_ok p"
  shows "tbl_ok (remove_tbl i p)"
proof -
  let ?b = "bucketOf p i"
  have len: "length (buckets p) = 160" using assms by (simp add: tbl_ok_def)
  have bs: "buckets (remove_tbl i p) = (buckets p)[?b := remove_loop (Digest i) (buckets p ! ?b)]"
    by (simp add: remove_tbl_def Let_def)
  show ?thesis
    unfolding tbl_ok_def
  proof (intro conjI allI impI)
    show "length (buckets (remove_tbl i p)) = 160" using len bs by simp
  next
    fix b :: nat assume b: "b < 160"
    show "\<forall>n\<in>set (buckets (remove_tbl i p) ! b). bucketOf (remove_tbl i p) (ID n) = b"
      using assms b len set_remove_loop[of "Digest i" "buckets p ! ?b"]
      by (cases "b = ?b") (auto simp: bs tbl_ok_def)
    show "int (length (buckets (remove_tbl i p) ! b)) \<le> k (remove_tbl i p)"
      using assms b len length_remove_loop[of "Digest i" "buckets p ! ?b"]
      by (cases "b = ?b") (auto simp: bs tbl_ok_def)
    show "distinct (map (\<lambda>n. Digest (ID n)) (buckets (remove_tbl i p) ! b))"
      using assms b len distinct_remove_loop[of "buckets p ! ?b" "Digest i"]
      by (cases "b = ?b") (auto simp: bs tbl_ok_def)
  qed
qed

lemma removed_bucket:
  assumes "tbl_ok p"
  shows "Digest i \<notin> (\<lambda>n. Digest (ID n)) ` set (buckets (remove_tbl i p) ! bucketOf p i)"
proof -
  have "distinct (map (\<lambda>n. Digest (ID n)) (buckets p ! bucketOf p i))"
    using assms bucketOf_less[of p i] by (simp add: tbl_ok_def)
  from remove_loop_absent[OF this, of "Digest i"] show ?thesis
    using assms bucketOf_less[of p i] by (simp add: remove_tbl_def Let_def tbl_ok_def)
qed


lemma selfid_remove [simp]: "selfid (remove_tbl i p) = selfid p"
  by (simp add: remove_tbl_def Let_def)

lemma upd_last: "bk \<noteq> [] \<Longrightarrow> bk[length bk - 1 := x] = butlast bk @ [x]"
  by (induction bk rule: rev_induct) (auto simp: list_update_append)

lemma insert_tbl_Inr:
  assumes ok: "tbl_ok p" and ins: "insert_tbl node p = Inr p'"
  shows "\<exists>xs. buckets p' = (buckets (remove_tbl (ID node) p))[bucketOf p (ID node) := xs @ [node]] \<and>
              set xs \<subseteq> set (buckets (remove_tbl (ID node) p) ! bucketOf p (ID node)) \<and>
              int (length xs) + 1 \<le> k p \<and>
              distinct (map (\<lambda>n. Digest (ID n)) xs) \<and>
              k p' = k p \<and> selfid p' = selfid p"
proof -
  let ?q = "remove_tbl (ID node) p"
  let ?b = "bucketOf p (ID node)"
  let ?bk = "buckets ?q ! ?b"
  have okq: "tbl_ok ?q" using ok by (rule tbl_ok_remove)
  have b: "?b < 160" by (rule bucketOf_less)
  have dq: "distinct (map (\<lambda>n. Digest (ID n)) ?bk)" and lq: "int (length ?bk) \<le> k p"
    using okq b by (auto simp: tbl_ok_def)
  show ?thesis
  proof (cases "int (length ?bk) < k p")
    case True
    then have "p' = ?q\<lparr>buckets := (buckets ?q)[?b := ?bk @ [node]]\<rparr>"
      using ins by (simp add: insert_tbl_def Let_def)
    then show ?thesis using True dq by (intro exI[of _ ?bk]) simp
  next
    case False
    then have ne: "?bk \<noteq> []"
      using ins by (auto simp add: insert_tbl_def Let_def split: if_splits)
    have p': "p' = ?q\<lparr>buckets := (buckets ?q)[?b := butlast ?bk @ [node]]\<rparr>"
      using ins False ne upd_last[OF ne, of node] by (simp add: insert_tbl_def Let_def)
    have "set (butlast ?bk) \<subseteq> set ?bk" by (auto dest: in_set_butlastD)
    moreover have "int (length (butlast ?bk)) + 1 \<le> k p" using ne lq by (simp add: Suc_leI)
    moreover have "distinct (map (\<lambda>n. Digest (ID n)) (butlast ?bk))"
      using dq by (simp add: map_butlast distinct_butlast)
    ultimately show ?thesis using p' by (intro exI[of _ "butlast ?bk"]) simp
  qed
qed

lemma insert_tbl_total:
  assumes ok: "tbl_ok p" and k: "0 < k p"
  shows "\<exists>p'. insert_tbl node p = Inr p'"
proof -
  let ?q = "remove_tbl (ID node) p"
  let ?bk = "buckets ?q ! bucketOf p (ID node)"
  have "\<not> int (length ?bk) < k p \<Longrightarrow> ?bk \<noteq> []" using k by auto
  then show ?thesis by (auto simp: insert_tbl_def Let_def)
qed

lemma tbl_ok_insert:
  assumes ok: "tbl_ok p" and ins: "insert_tbl node p = Inr p'"
  shows "tbl_ok p'"
proof -
  let ?q = "remove_tbl (ID node) p"
  let ?b = "bucketOf p (ID node)"
  have okq: "tbl_ok ?q" using ok by (rule tbl_ok_remove)
  have b: "?b < 160" by (rule bucketOf_less)
  from insert_tbl_Inr[OF ok ins] obtain xs where
    bs: "buckets p' = (buckets ?q)[?b := xs @ [node]]" and
    sub: "set xs \<subseteq> set (buckets ?q ! ?b)" and
    len: "int (length xs) + 1 \<le> k p" and
    dist: "distinct (map (\<lambda>n. Digest (ID n)) xs)" and
    kk: "k p' = k p" and ss: "selfid p' = selfid p" by blast
  have absent: "Digest (ID node) \<notin> (\<lambda>n. Digest (ID n)) ` set xs"
    using removed_bucket[OF ok, of "ID node"] sub by auto
  have bo: "bucketOf p' j = bucketOf p j" for j by (simp add: bucketOf_def ss)
  have lq: "length (buckets ?q) = 160" using okq by (simp add: tbl_ok_def)
  show ?thesis
    unfolding tbl_ok_def
  proof (intro conjI allI impI)
    show "length (buckets p') = 160" using bs lq by simp
  next
    fix c :: nat assume c: "c < 160"
    show "\<forall>n\<in>set (buckets p' ! c). bucketOf p' (ID n) = c"
    proof (cases "c = ?b")
      case True
      then have "buckets p' ! c = xs @ [node]" using bs lq b by simp
      then show ?thesis using okq sub True b by (auto simp: bo tbl_ok_def)
    next
      case False
      then have "buckets p' ! c = buckets ?q ! c" using bs by simp
      then show ?thesis using okq c by (auto simp: bo tbl_ok_def)
    qed
    show "int (length (buckets p' ! c)) \<le> k p'"
    proof (cases "c = ?b")
      case True
      then have "buckets p' ! c = xs @ [node]" using bs lq b by simp
      then show ?thesis using len kk by simp
    next
      case False
      then have "buckets p' ! c = buckets ?q ! c" using bs by simp
      then show ?thesis using okq c kk by (auto simp: tbl_ok_def)
    qed
    show "distinct (map (\<lambda>n. Digest (ID n)) (buckets p' ! c))"
    proof (cases "c = ?b")
      case True
      then have "buckets p' ! c = xs @ [node]" using bs lq b by simp
      then show ?thesis using dist absent by auto
    next
      case False
      then have "buckets p' ! c = buckets ?q ! c" using bs by simp
      then show ?thesis using okq c by (auto simp: tbl_ok_def)
    qed
  qed
qed

lemma find_absent: "d \<notin> (\<lambda>n. Digest (ID n)) ` set xs \<Longrightarrow> List.find (\<lambda>n. Cmp (Digest (ID n)) d = 0) xs = None"
  by (induction xs) auto

lemma find_append_new:
  "d \<notin> (\<lambda>n. Digest (ID n)) ` set xs \<Longrightarrow> Digest (ID x) = d \<Longrightarrow>
   List.find (\<lambda>n. Cmp (Digest (ID n)) d = 0) (xs @ [x]) = Some x"
  by (induction xs) auto

lemma find_after_insert:
  assumes ok: "tbl_ok p" and ins: "insert_tbl node p = Inr p'"
  shows "find_tbl (ID node) p' = Some node"
proof -
  let ?q = "remove_tbl (ID node) p"
  let ?b = "bucketOf p (ID node)"
  have okq: "tbl_ok ?q" using ok by (rule tbl_ok_remove)
  have b: "?b < 160" by (rule bucketOf_less)
  from insert_tbl_Inr[OF ok ins] obtain xs where
    bs: "buckets p' = (buckets ?q)[?b := xs @ [node]]" and
    sub: "set xs \<subseteq> set (buckets ?q ! ?b)" and
    ss: "selfid p' = selfid p" by blast
  have absent: "Digest (ID node) \<notin> (\<lambda>n. Digest (ID n)) ` set xs"
    using removed_bucket[OF ok, of "ID node"] sub by auto
  have bo: "bucketOf p' (ID node) = ?b" by (simp add: bucketOf_def ss)
  have lq: "length (buckets ?q) = 160" using okq by (simp add: tbl_ok_def)
  have "buckets p' ! ?b = xs @ [node]" using bs lq b by simp
  then show ?thesis using find_append_new[OF absent] by (simp add: find_tbl_def bo)
qed

lemma find_after_remove:
  assumes ok: "tbl_ok p"
  shows "find_tbl i (remove_tbl i p) = None"
  using find_absent[OF removed_bucket[OF ok, of i]] by (simp add: find_tbl_def)

lemma run_tbl_ok:
  "tbl_ok p \<Longrightarrow> run_tbl ops p = Inr p' \<Longrightarrow> tbl_ok p' \<and> k p' = k p \<and> selfid p' = selfid p"
proof (induction ops arbitrary: p)
  case Nil
  then show ?case by simp
next
  case (Cons x xs)
  from Cons.prems(2) obtain q where q: "apply_tbl_op x p = Inr q" and r: "run_tbl xs q = Inr p'"
    by (auto split: sum.splits)
  have "tbl_ok q \<and> k q = k p \<and> selfid q = selfid p"
  proof (cases x)
    case (Insert node)
    then have i: "insert_tbl node p = Inr q" using q by simp
    from insert_tbl_Inr[OF Cons.prems(1) i] tbl_ok_insert[OF Cons.prems(1) i] show ?thesis by auto
  next
    case (Remove i)
    then show ?thesis using q tbl_ok_remove[OF Cons.prems(1), of i] by auto
  qed
  with Cons.IH[OF _ r] show ?case by simp
qed

lemma run_tbl_total:
  "tbl_ok p \<Longrightarrow> 0 < k p \<Longrightarrow> \<exists>p'. run_tbl ops p = Inr p'"
proof (induction ops arbitrary: p)
  case Nil
  then show ?case by simp
next
  case (Cons x xs)
  have "\<exists>q. apply_tbl_op x p = Inr q"
    using insert_tbl_total[OF Cons.prems] by (cases x) auto
  then obtain q where q: "apply_tbl_op x p = Inr q" by blast
  have "tbl_ok q \<and> k q = k p \<and> selfid q = selfid p"
    using run_tbl_ok[OF Cons.prems(1), of "[x]" q] q by simp
  then obtain p' where "run_tbl xs q = Inr p'" using Cons.IH[of q] Cons.prems(2) by auto
  then show ?case using q by simp
qed


lemma distinct_concat_idx:
  assumes "\<forall>i<length xss. distinct (xss ! i)"
    and "\<forall>i<length xss. \<forall>j<length xss. i \<noteq> j \<longrightarrow> set (xss ! i) \<inter> set (xss ! j) = {}"
  shows "distinct (concat xss)"
  using assms
proof (induction xss)
  case Nil
  then show ?case by simp
next
  case (Cons xs xss)
  have d: "distinct xs" using Cons.prems(1) by (auto dest: spec[of _ 0])
  have t1: "\<forall>i<length xss. distinct (xss ! i)"
    using Cons.prems(1) by (auto dest: spec[of _ "Suc i" for i])
  have t2: "\<forall>i<length xss. \<forall>j<length xss. i \<noteq> j \<longrightarrow> set (xss ! i) \<inter> set (xss ! j) = {}"
  proof (intro allI impI)
    fix i j assume "i < length xss" "j < length xss" "i \<noteq> j"
    then show "set (xss ! i) \<inter> set (xss ! j) = {}"
      using Cons.prems(2)[rule_format, of "Suc i" "Suc j"] by simp
  qed
  have disj: "set xs \<inter> set ys = {}" if "ys \<in> set xss" for ys
  proof -
    from that obtain j where j: "j < length xss" "xss ! j = ys" by (auto simp: in_set_conv_nth)
    then show ?thesis using Cons.prems(2)[rule_format, of 0 "Suc j"] by simp
  qed
  show ?case using d Cons.IH[OF t1 t2] disj by auto
qed

lemma tbl_ok_distinct_ids:
  assumes ok: "tbl_ok p"
  shows "distinct (map ID (nodes p))"
proof -
  let ?xss = "map (map ID) (buckets p)"
  have len: "length (buckets p) = 160" using ok by (simp add: tbl_ok_def)
  have 1: "\<forall>i<length ?xss. distinct (?xss ! i)"
  proof (intro allI impI)
    fix i assume i: "i < length ?xss"
    then have "distinct (map (\<lambda>n. Digest (ID n)) (buckets p ! i))" using ok len by (simp add: tbl_ok_def)
    then have "distinct (map Digest (map ID (buckets p ! i)))" by (simp add: comp_def)
    then have "distinct (map ID (buckets p ! i))" by (rule distinct_map[THEN iffD1, THEN conjunct1])
    then show "distinct (?xss ! i)" using i by simp
  qed
  have 2: "\<forall>i<length ?xss. \<forall>j<length ?xss. i \<noteq> j \<longrightarrow> set (?xss ! i) \<inter> set (?xss ! j) = {}"
  proof (intro allI impI)
    fix i j assume i: "i < length ?xss" and j: "j < length ?xss" and ne: "i \<noteq> j"
    have "bucketOf p x = i" if "x \<in> set (?xss ! i)" for x
      using that i ok len by (auto simp: tbl_ok_def)
    moreover have "bucketOf p x = j" if "x \<in> set (?xss ! j)" for x
      using that j ok len by (auto simp: tbl_ok_def)
    ultimately show "set (?xss ! i) \<inter> set (?xss ! j) = {}" using ne by auto
  qed
  have "distinct (concat ?xss)" using 1 2 by (rule distinct_concat_idx)
  then show ?thesis by (simp add: nodes_def map_concat)
qed

text \<open>
  Claim C2.  Start from \<open>newNodeTable k0 self\<close> with \<open>k0 \<ge> 0\<close> and run any sequence of
  \<open>insert\<close> and \<open>remove\<close>.  When \<open>k0 > 0\<close> the run does not panic.  In the table it
  ends with, an entry found in bucket \<open>b\<close> has \<open>b = Log2int (digest XOR self digest)\<close>,
  so it lies in that bucket and in no other; every bucket holds at most \<open>k0\<close> entries;
  and no two entries of the table have the same identifier.
\<close>

theorem nodeTable_invariants:
  assumes k0: "0 \<le> k0"
  shows "(0 < k0 \<longrightarrow> (\<exists>p. run_tbl ops (newNodeTable k0 self) = Inr p)) \<and>
         (\<forall>p. run_tbl ops (newNodeTable k0 self) = Inr p \<longrightarrow>
            (\<forall>b<length (buckets p). \<forall>n\<in>set (buckets p ! b).
                int b = Log2int (Xor (Digest (ID n)) (Digest self))) \<and>
            (\<forall>b<length (buckets p). int (length (buckets p ! b)) \<le> k0) \<and>
            distinct (map ID (nodes p)))"
proof -
  let ?t = "newNodeTable k0 self"
  have ok: "tbl_ok ?t" using k0 by (rule tbl_ok_new)
  have kt: "k ?t = k0" and st: "selfid ?t = self" by (simp_all add: newNodeTable_def)
  have total: "\<exists>p. run_tbl ops ?t = Inr p" if "0 < k0"
    using run_tbl_total[OF ok, of ops] kt that by simp
  have inv: "(\<forall>b<length (buckets p). \<forall>n\<in>set (buckets p ! b).
                int b = Log2int (Xor (Digest (ID n)) (Digest self))) \<and>
            (\<forall>b<length (buckets p). int (length (buckets p ! b)) \<le> k0) \<and>
            distinct (map ID (nodes p))" if r: "run_tbl ops ?t = Inr p" for p
  proof -
    from run_tbl_ok[OF ok r] have okp: "tbl_ok p" and kp: "k p = k0" and sp: "selfid p = self"
      using kt st by auto
    have len: "length (buckets p) = 160" using okp by (simp add: tbl_ok_def)
    have a: "int b = Log2int (Xor (Digest (ID n)) (Digest self))"
      if b: "b < length (buckets p)" and n: "n \<in> set (buckets p ! b)" for b n
    proof -
      have "bucketOf p (ID n) = b" using okp b len n by (auto simp: tbl_ok_def)
      moreover have "0 \<le> Log2int (Xor (Digest (ID n)) (Digest self))" using Log2int_range by simp
      ultimately show ?thesis by (simp add: bucketOf_def sp)
    qed
    have c: "int (length (buckets p ! b)) \<le> k0" if b: "b < length (buckets p)" for b
      using okp b len kp by (auto simp: tbl_ok_def)
    show ?thesis using a c tbl_ok_distinct_ids[OF okp] by blast
  qed
  show ?thesis using total inv by blast
qed

theorem nodeTable_invariants_witness:
  "(0::int) \<le> 1 \<and>
   run_tbl [Insert (peer 1), Insert (peer 5), Remove (ID (peer 1)), Insert (peer 2), Insert (peer 0)]
     (newNodeTable 1 self0) =
     Inr \<lparr>buckets = [peer 0] # [peer 5] # replicate 158 [], selfid = self0, k = 1\<rparr> \<and>
   int 0 = Log2int (Xor (Digest (ID (peer 0))) (Digest self0)) \<and>
   int 1 = Log2int (Xor (Digest (ID (peer 5))) (Digest self0)) \<and>
   int (length (([peer 0] # [peer 5] # replicate 158 []) ! 0)) \<le> 1 \<and>
   int (length (([peer 0] # [peer 5] # replicate 158 []) ! 1)) \<le> 1 \<and>
   distinct (map ID (nodes \<lparr>buckets = [peer 0] # [peer 5] # replicate 158 [], selfid = self0, k = 1\<rparr>))"
proof -
  let ?ops = "[Insert (peer 1), Insert (peer 5), Remove (ID (peer 1)), Insert (peer 2), Insert (peer 0)]"
  let ?bs = "[peer 0] # [peer 5] # replicate 158 []"
  let ?T = "\<lparr>buckets = ?bs, selfid = self0, k = 1\<rparr>"
  have h: "(0::int) \<le> 1" by simp
  have e: "run_tbl ?ops (newNodeTable 1 self0) = Inr ?T"
    by code_simp
  from nodeTable_invariants[OF h, of ?ops self0] e have
    a: "\<forall>b<length (buckets ?T). \<forall>n\<in>set (buckets ?T ! b).
          int b = Log2int (Xor (Digest (ID n)) (Digest self0))" and
    c: "\<forall>b<length (buckets ?T). int (length (buckets ?T ! b)) \<le> 1" and
    d: "distinct (map ID (nodes ?T))"
    by blast+
  have l0: "0 < length (buckets ?T)" and l1: "1 < length (buckets ?T)" by simp_all
  have m0: "peer 0 \<in> set (buckets ?T ! 0)" and m1: "peer 5 \<in> set (buckets ?T ! 1)" by simp_all
  have a0: "int 0 = Log2int (Xor (Digest (ID (peer 0))) (Digest self0))"
    using a[rule_format, OF l0 m0] .
  have a1: "int 1 = Log2int (Xor (Digest (ID (peer 5))) (Digest self0))"
    using a[rule_format, OF l1 m1] .
  have c0: "int (length (?bs ! 0)) \<le> 1" using c[rule_format, OF l0] by simp
  have c1: "int (length (?bs ! 1)) \<le> 1" using c[rule_format, OF l1] by simp
  show ?thesis using h e a0 a1 c0 c1 d by blast
qed

text \<open>
  Claim C8.  In any table reached from \<open>newNodeTable k0 self\<close> with \<open>k0 > 0\<close>:
  \<open>insert x\<close> returns, and \<open>find (ID x)\<close> in the table it leaves gives exactly \<open>x\<close>;
  and after \<open>remove i\<close>, \<open>find i\<close> gives nothing.
\<close>

theorem insert_find_remove_find:
  assumes k0: "0 < k0" and r: "run_tbl ops (newNodeTable k0 self) = Inr p"
  shows "(\<exists>p'. insert_tbl x p = Inr p' \<and> find_tbl (ID x) p' = Some x) \<and>
         find_tbl i (remove_tbl i p) = None"
proof -
  let ?t = "newNodeTable k0 self"
  have ok: "tbl_ok ?t" using k0 by (intro tbl_ok_new) simp
  have kt: "k ?t = k0" by (simp add: newNodeTable_def)
  from run_tbl_ok[OF ok r] have okp: "tbl_ok p" and kp: "k p = k0" using kt by auto
  from insert_tbl_total[OF okp, of x] obtain p' where p': "insert_tbl x p = Inr p'"
    using kp k0 by auto
  show ?thesis using p' find_after_insert[OF okp p'] find_after_remove[OF okp, of i] by simp
qed

theorem insert_find_remove_find_witness:
  "(0::int) < 1 \<and>
   run_tbl [Insert (peer 1), Insert (peer 5)] (newNodeTable 1 self0) =
     Inr \<lparr>buckets = [peer 1] # [peer 5] # replicate 158 [], selfid = self0, k = 1\<rparr> \<and>
   (\<exists>p'. insert_tbl (peer 2) \<lparr>buckets = [peer 1] # [peer 5] # replicate 158 [], selfid = self0, k = 1\<rparr> = Inr p' \<and>
      find_tbl (ID (peer 2)) p' = Some (peer 2)) \<and>
   find_tbl (ID (peer 5))
     (remove_tbl (ID (peer 5)) \<lparr>buckets = [peer 1] # [peer 5] # replicate 158 [], selfid = self0, k = 1\<rparr>) = None"
proof -
  have h: "(0::int) < 1" by simp
  have e: "run_tbl [Insert (peer 1), Insert (peer 5)] (newNodeTable 1 self0) =
     Inr \<lparr>buckets = [peer 1] # [peer 5] # replicate 158 [], selfid = self0, k = 1\<rparr>"
    by code_simp
  from insert_find_remove_find[OF h e, of "peer 2" "ID (peer 5)"] e show ?thesis by simp
qed

section \<open>The walk of nearestNodes\<close>

lemma lastk_ok: "0 \<le> k0 \<Longrightarrow> k0 \<le> int (length n) \<Longrightarrow> lastk k0 n = Inr (drop (length n - nat k0) n)"
  by (auto simp: lastk_def Let_def nat_diff_distrib' )

lemma ring_int:
  assumes "b < 160"
  shows "(let rb = int b + int i;
             n1 = (if rb < bucketSize then n @ buckets p ! nat rb else n);
             lb = int b - int i;
             n2 = (if 0 \<le> lb then n1 @ buckets p ! nat lb else n1)
         in n2) = n @ ring p b i"
  by (auto simp: ring_def Let_def bucketSize_def nat_add_distrib nat_diff_distrib')

lemma nearest_loop_step:
  assumes "b < 160"
  shows "nearest_loop p (int b) (int i) n =
     (if i < 160 then
        (if k p \<le> int (length (n @ ring p b i)) then lastk (k p) (n @ ring p b i)
         else nearest_loop p (int b) (int (Suc i)) (n @ ring p b i))
      else Inr n)"
proof -
  have e: "int i + 1 = int (Suc i)" by simp
  show ?thesis
    using ring_int[OF assms, of i n p]
    by (subst nearest_loop.simps) (simp add: Let_def bucketSize_def e del: of_nat_Suc)
qed

lemma acc_Suc: "i \<le> j \<Longrightarrow> rings p b i (Suc j) = rings p b i j @ ring p b j"
  by (simp add: rings_def)

lemma acc_first: "i < j \<Longrightarrow> rings p b i j = ring p b i @ rings p b (Suc i) j"
  by (simp add: rings_def upt_conv_Cons)

lemma acc_same [simp]: "rings p b i i = []"
  by (simp add: rings_def)

lemma nearest_loop_char:
  assumes b: "b < 160" and k0: "0 \<le> k p"
  shows "i \<le> 160 \<Longrightarrow>
    \<exists>r. i \<le> r \<and> r \<le> 160 \<and>
        (\<forall>j. i \<le> j \<and> j < r \<longrightarrow> int (length (n @ rings p b i (Suc j))) < k p) \<and>
        (if r < 160
         then k p \<le> int (length (n @ rings p b i (Suc r))) \<and>
              nearest_loop p (int b) (int i) n =
                Inr (drop (length (n @ rings p b i (Suc r)) - nat (k p)) (n @ rings p b i (Suc r)))
         else nearest_loop p (int b) (int i) n = Inr (n @ rings p b i 160))"
proof (induction "160 - i" arbitrary: i n)
  case 0
  then have i: "i = 160" by simp
  have "nearest_loop p (int b) (int 160) n = Inr n"
    by (subst nearest_loop_step[OF b]) simp
  then show ?case unfolding i
    by (intro exI[of _ 160]) simp
next
  case (Suc m)
  then have i: "i < 160" by simp
  let ?n2 = "n @ ring p b i"
  show ?case
  proof (cases "k p \<le> int (length ?n2)")
    case True
    have "nearest_loop p (int b) (int i) n = lastk (k p) ?n2"
      using i True by (subst nearest_loop_step[OF b]) simp
    also have "\<dots> = Inr (drop (length ?n2 - nat (k p)) ?n2)"
      using k0 True by (rule lastk_ok)
    finally show ?thesis using i True
      by (intro exI[of _ i]) (simp add: rings_def)
  next
    case False
    have step: "nearest_loop p (int b) (int i) n = nearest_loop p (int b) (int (Suc i)) ?n2"
      using i False by (subst nearest_loop_step[OF b]) simp
    have "m = 160 - Suc i" using Suc.hyps(2) by simp
    from Suc.hyps(1)[OF this, of ?n2] i obtain r where
      r: "Suc i \<le> r" "r \<le> 160"
      "\<forall>j. Suc i \<le> j \<and> j < r \<longrightarrow> int (length (?n2 @ rings p b (Suc i) (Suc j))) < k p"
      "if r < 160
         then k p \<le> int (length (?n2 @ rings p b (Suc i) (Suc r))) \<and>
              nearest_loop p (int b) (int (Suc i)) ?n2 =
                Inr (drop (length (?n2 @ rings p b (Suc i) (Suc r)) - nat (k p)) (?n2 @ rings p b (Suc i) (Suc r)))
         else nearest_loop p (int b) (int (Suc i)) ?n2 = Inr (?n2 @ rings p b (Suc i) 160)"
      by auto
    have eq: "?n2 @ rings p b (Suc i) j = n @ rings p b i j" if "i < j" for j
      using that by (simp add: acc_first)
    have a: "\<forall>j. i \<le> j \<and> j < r \<longrightarrow> int (length (n @ rings p b i (Suc j))) < k p"
    proof (intro allI impI)
      fix j assume j: "i \<le> j \<and> j < r"
      show "int (length (n @ rings p b i (Suc j))) < k p"
      proof (cases "j = i")
        case True
        then show ?thesis using False by (simp add: rings_def)
      next
        case False
        then have "Suc i \<le> j" using j by simp
        then show ?thesis using r(3) j eq[of "Suc j"] by (metis le_imp_less_Suc Suc_le_lessD)
      qed
    qed
    show ?thesis
    proof (intro exI[of _ r] conjI)
      show "i \<le> r" using r(1) by simp
      show "r \<le> 160" by (rule r(2))
      show "\<forall>j. i \<le> j \<and> j < r \<longrightarrow> int (length (n @ rings p b i (Suc j))) < k p" by (rule a)
      show "if r < 160
         then k p \<le> int (length (n @ rings p b i (Suc r))) \<and>
              nearest_loop p (int b) (int i) n =
                Inr (drop (length (n @ rings p b i (Suc r)) - nat (k p)) (n @ rings p b i (Suc r)))
         else nearest_loop p (int b) (int i) n = Inr (n @ rings p b i 160)"
        using r(1,4) i step eq[of "Suc r"] eq[of 160] by (auto split: if_splits)
    qed
  qed
qed

lemma int_bucketOf: "int (bucketOf p t) = Log2int (Xor (Digest t) (Digest (selfid p)))"
  using Log2int_range[of "Xor (Digest t) (Digest (selfid p))"] by (simp add: bucketOf_def)

lemma set_bucket_nodes: "j < length (buckets p) \<Longrightarrow> set (buckets p ! j) \<subseteq> set (nodes p)"
  by (auto simp: nodes_def intro!: bexI[of _ "buckets p ! j"])

lemma set_ring_nodes:
  assumes "length (buckets p) = 160" "b < 160"
  shows "set (ring p b i) \<subseteq> set (nodes p)"
proof -
  have "set (buckets p ! (b + i)) \<subseteq> set (nodes p)" if "b + i < 160"
    using that assms by (intro set_bucket_nodes) simp
  moreover have "set (buckets p ! (b - i)) \<subseteq> set (nodes p)"
    using assms by (intro set_bucket_nodes) simp
  ultimately show ?thesis by (auto simp: ring_def)
qed

lemma set_acc_nodes:
  assumes "length (buckets p) = 160" "b < 160"
  shows "set (rings p b i j) \<subseteq> set (nodes p)"
  using set_ring_nodes[OF assms] by (auto simp: rings_def)

lemma walk_acc: "walk p b r = rings p b 1 (Suc r)"
  by (simp add: walk_def rings_def)

lemma nearestNodes_unfold:
  "nearestNodes t p =
     (if k p < int (length (buckets p ! bucketOf p t)) then lastk (k p) (buckets p ! bucketOf p t)
      else nearest_loop p (int (bucketOf p t)) (int 0) (buckets p ! bucketOf p t))"
  by (simp add: nearestNodes_def Let_def int_bucketOf) (simp add: bucketOf_def)

lemma nearestNodes_char:
  assumes k0: "0 \<le> k p" and len: "length (buckets p) = 160"
  shows "\<exists>ns. nearestNodes t p = Inr ns \<and> int (length ns) \<le> k p \<and> set ns \<subseteq> set (nodes p) \<and>
     (k p \<le> int (length (buckets p ! bucketOf p t)) \<longrightarrow>
        ns = drop (length (buckets p ! bucketOf p t) - nat (k p)) (buckets p ! bucketOf p t)) \<and>
     (buckets p ! bucketOf p t = [] \<longrightarrow>
        (\<exists>r<160. (\<forall>j<r. int (length (walk p (bucketOf p t) j)) < k p) \<and>
                 (k p \<le> int (length (walk p (bucketOf p t) r)) \<or> r = 159) \<and>
                 ns = drop (length (walk p (bucketOf p t) r) - nat (k p)) (walk p (bucketOf p t) r)))"
proof -
  let ?b = "bucketOf p t"
  let ?B = "buckets p ! ?b"
  have b: "?b < 160" by (rule bucketOf_less)
  have sB: "set ?B \<subseteq> set (nodes p)" using b len by (intro set_bucket_nodes) simp
  have ring0: "ring p ?b 0 = ?B @ ?B" using b by (simp add: ring_def)
  show ?thesis
  proof (cases "k p < int (length ?B)")
    case True
    define ns where "ns = drop (length ?B - nat (k p)) ?B"
    have "nearestNodes t p = Inr ns"
      using k0 True by (simp add: nearestNodes_unfold lastk_ok ns_def)
    moreover have "int (length ns) \<le> k p" using True k0 by (simp add: ns_def)
    moreover have "set ns \<subseteq> set (nodes p)"
      using sB set_drop_subset[of "length ?B - nat (k p)" ?B] unfolding ns_def by blast
    moreover have "?B \<noteq> []" using True k0 by auto
    ultimately show ?thesis using ns_def by blast
  next
    case False
    then have nn: "nearestNodes t p = nearest_loop p (int ?b) (int 0) ?B"
      by (simp add: nearestNodes_unfold)
    from nearest_loop_char[OF b k0, of 0 ?B] obtain r where
      r: "r \<le> 160"
      "\<forall>j. j < r \<longrightarrow> int (length (?B @ rings p ?b 0 (Suc j))) < k p"
      "if r < 160
         then k p \<le> int (length (?B @ rings p ?b 0 (Suc r))) \<and>
              nearest_loop p (int ?b) (int 0) ?B =
                Inr (drop (length (?B @ rings p ?b 0 (Suc r)) - nat (k p)) (?B @ rings p ?b 0 (Suc r)))
         else nearest_loop p (int ?b) (int 0) ?B = Inr (?B @ rings p ?b 0 160)"
      by auto
    have acc0: "rings p ?b 0 (Suc j) = ?B @ ?B @ walk p ?b j" for j
      by (simp add: acc_first[of 0 "Suc j"] ring0 walk_acc)
    show ?thesis
    proof (cases "r < 160")
      case True
      define m where "m = ?B @ rings p ?b 0 (Suc r)"
      define ns where "ns = drop (length m - nat (k p)) m"
      have res: "nearestNodes t p = Inr ns" and km: "k p \<le> int (length m)"
        using r(3) True nn by (auto simp: ns_def m_def)
      have l: "int (length ns) \<le> k p" using km k0 by (simp add: ns_def)
      have "set m \<subseteq> set (nodes p)" using sB set_acc_nodes[OF len b, of 0 "Suc r"] by (simp add: m_def)
      then have s: "set ns \<subseteq> set (nodes p)"
        using set_drop_subset[of "length m - nat (k p)" m] unfolding ns_def by blast
      have c2: "ns = drop (length ?B - nat (k p)) ?B" if "k p \<le> int (length ?B)"
      proof -
        have kB: "int (length ?B) = k p" using that False by simp
        have "r = 0"
        proof (rule ccontr)
          assume "r \<noteq> 0"
          then have "int (length (?B @ rings p ?b 0 (Suc 0))) < k p" using r(2) by blast
          then show False using kB by simp
        qed
        then have "m = ?B @ ?B @ ?B" by (simp add: acc0 walk_def m_def)
        moreover have "nat (k p) = length ?B" using kB by simp
        ultimately show ?thesis by (simp add: ns_def)
      qed
      have c3: "\<exists>r<160. (\<forall>j<r. int (length (walk p ?b j)) < k p) \<and>
                 (k p \<le> int (length (walk p ?b r)) \<or> r = 159) \<and>
                 ns = drop (length (walk p ?b r) - nat (k p)) (walk p ?b r)"
        if e: "?B = []"
      proof (intro exI[of _ r] conjI)
        show "r < 160" by (rule True)
        show "\<forall>j<r. int (length (walk p ?b j)) < k p" using r(2) by (simp add: acc0 e)
        show "k p \<le> int (length (walk p ?b r)) \<or> r = 159" using km by (simp add: acc0 e m_def)
        show "ns = drop (length (walk p ?b r) - nat (k p)) (walk p ?b r)"
          by (simp add: acc0 e ns_def m_def)
      qed
      show ?thesis using res l s c2 c3 by blast
    next
      case False
      then have r160: "r = 160" using r(1) by simp
      define ns where "ns = ?B @ rings p ?b 0 160"
      have res: "nearestNodes t p = Inr ns" using r(3) False nn by (auto simp: ns_def)
      have small: "int (length (?B @ rings p ?b 0 (Suc j))) < k p" if "j < 160" for j
        using r(2) that r160 by blast
      have l: "int (length ns) \<le> k p" using small[of 159] by (simp add: ns_def)
      have s: "set ns \<subseteq> set (nodes p)" using sB set_acc_nodes[OF len b, of 0 160] by (simp add: ns_def)
      have c2: "\<not> k p \<le> int (length ?B)" using small[of 0] by simp
      have acc160: "rings p ?b 0 160 = ?B @ ?B @ walk p ?b 159" using acc0[of 159] by simp
      have c3: "\<exists>r<160. (\<forall>j<r. int (length (walk p ?b j)) < k p) \<and>
                 (k p \<le> int (length (walk p ?b r)) \<or> r = 159) \<and>
                 ns = drop (length (walk p ?b r) - nat (k p)) (walk p ?b r)"
        if e: "?B = []"
      proof (intro exI[of _ 159] conjI)
        show "(159::nat) < 160" by simp
        show "\<forall>j<159. int (length (walk p ?b j)) < k p"
        proof (intro allI impI)
          fix j :: nat assume "j < 159"
          then show "int (length (walk p ?b j)) < k p" using small[of j] by (simp add: acc0 e)
        qed
        show "k p \<le> int (length (walk p ?b 159)) \<or> (159::nat) = 159" by simp
        have "int (length (walk p ?b 159)) < k p" using small[of 159] by (simp add: acc160 e)
        moreover have "ns = walk p ?b 159" by (simp add: e ns_def acc160)
        ultimately show "ns = drop (length (walk p ?b 159) - nat (k p)) (walk p ?b 159)" by simp
      qed
      show ?thesis using res l s c2 c3 by blast
    qed
  qed
qed

lemma distinct_concat_map:
  assumes "distinct js"
    and "\<forall>i\<in>set js. distinct (f i)"
    and "\<forall>i\<in>set js. \<forall>j\<in>set js. i \<noteq> j \<longrightarrow> set (f i) \<inter> set (f j) = {}"
  shows "distinct (concat (map f js))"
  using assms
proof (induction js)
  case Nil
  then show ?case by simp
next
  case (Cons a js)
  have "set (f a) \<inter> set (f j) = {}" if "j \<in> set js" for j
    using Cons.prems(1,3) that by auto
  then show ?case using Cons by auto
qed

lemma tbl_ok_bucket_distinct:
  assumes "tbl_ok p" "j < 160"
  shows "distinct (buckets p ! j)"
proof -
  have "distinct (map (\<lambda>n. Digest (ID n)) (buckets p ! j))" using assms by (simp add: tbl_ok_def)
  then show ?thesis by (rule distinct_map[THEN iffD1, THEN conjunct1])
qed

lemma ring_bucket:
  assumes ok: "tbl_ok p" and b: "b < 160" and x: "x \<in> set (ring p b i)"
  shows "bucketOf p (ID x) = b + i \<or> (i \<le> b \<and> bucketOf p (ID x) = b - i)"
proof -
  have "x \<in> set (buckets p ! j) \<Longrightarrow> j < 160 \<Longrightarrow> bucketOf p (ID x) = j" for j
    using ok by (auto simp: tbl_ok_def)
  then show ?thesis using x b by (fastforce simp: ring_def split: if_splits)
qed

lemma distinct_ring:
  assumes ok: "tbl_ok p" and b: "b < 160" and i: "1 \<le> i"
  shows "distinct (ring p b i)"
proof -
  have d1: "distinct (buckets p ! (b + i))" if "b + i < 160"
    using ok that by (rule tbl_ok_bucket_distinct)
  have d2: "distinct (buckets p ! (b - i))"
    using ok b by (intro tbl_ok_bucket_distinct) auto
  have dj: "set (buckets p ! (b + i)) \<inter> set (buckets p ! (b - i)) = {}" if "b + i < 160"
  proof -
    have "bucketOf p (ID x) = b + i" if "x \<in> set (buckets p ! (b + i))" for x
      using ok that \<open>b + i < 160\<close> by (auto simp: tbl_ok_def)
    moreover have "bucketOf p (ID x) = b - i" if "x \<in> set (buckets p ! (b - i))" for x
      using ok that b by (auto simp: tbl_ok_def)
    ultimately show ?thesis using i by fastforce
  qed
  show ?thesis using d1 d2 dj by (auto simp: ring_def)
qed

lemma distinct_walk:
  assumes ok: "tbl_ok p" and b: "b < 160"
  shows "distinct (walk p b r)"
  unfolding walk_def
proof (rule distinct_concat_map)
  show "distinct [1..<Suc r]" by simp
  show "\<forall>i\<in>set [1..<Suc r]. distinct (ring p b i)"
    using distinct_ring[OF ok b] by auto
  show "\<forall>i\<in>set [1..<Suc r]. \<forall>j\<in>set [1..<Suc r]. i \<noteq> j \<longrightarrow> set (ring p b i) \<inter> set (ring p b j) = {}"
  proof (intro ballI impI)
    fix i j assume i: "i \<in> set [1..<Suc r]" and j: "j \<in> set [1..<Suc r]" and ne: "i \<noteq> j"
    have False if xi: "x \<in> set (ring p b i)" and xj: "x \<in> set (ring p b j)" for x
      using ring_bucket[OF ok b xi] ring_bucket[OF ok b xj] i j ne by auto
    then show "set (ring p b i) \<inter> set (ring p b j) = {}" by auto
  qed
qed

lemma nearestNodes_distinct:
  assumes ok: "tbl_ok p" and res: "nearestNodes t p = Inr ns"
    and c: "buckets p ! bucketOf p t = [] \<or> k p \<le> int (length (buckets p ! bucketOf p t))"
  shows "distinct ns"
proof -
  have len: "length (buckets p) = 160" using ok by (simp add: tbl_ok_def)
  have b: "bucketOf p t < 160" by (rule bucketOf_less)
  have "int (length (buckets p ! bucketOf p t)) \<le> k p" using ok b by (simp add: tbl_ok_def)
  then have k0: "0 \<le> k p" by linarith
  from nearestNodes_char[OF k0 len, of t] res have
    c2: "k p \<le> int (length (buckets p ! bucketOf p t)) \<longrightarrow>
        ns = drop (length (buckets p ! bucketOf p t) - nat (k p)) (buckets p ! bucketOf p t)" and
    c3: "buckets p ! bucketOf p t = [] \<longrightarrow>
        (\<exists>r<160. ns = drop (length (walk p (bucketOf p t) r) - nat (k p)) (walk p (bucketOf p t) r))"
    by auto
  from c show ?thesis
  proof
    assume "buckets p ! bucketOf p t = []"
    then obtain r where "ns = drop (length (walk p (bucketOf p t) r) - nat (k p)) (walk p (bucketOf p t) r)"
      using c3 by blast
    then show ?thesis using distinct_walk[OF ok b, of r] by simp
  next
    assume "k p \<le> int (length (buckets p ! bucketOf p t))"
    then have "ns = drop (length (buckets p ! bucketOf p t) - nat (k p)) (buckets p ! bucketOf p t)"
      using c2 by blast
    then show ?thesis using tbl_ok_bucket_distinct[OF ok b] by simp
  qed
qed


text \<open>
  Claim C1 does not hold as stated; two tables show it.

  With \<open>k = 2\<close> and the single peer 1 in bucket 0, a target in bucket 0 gets the answer
  \<open>[peer 1, peer 1]\<close>: the start bucket is appended before the loop and twice more at
  \<open>i = 0\<close>, so one table entry is returned twice.

  With \<open>k = 1\<close>, peer 2 in bucket 0 and peer 7 in bucket 2, the target 6 (bucket 1,
  empty) gets the answer \<open>[peer 2]\<close>, although peer 7 is the closer one under XOR
  (distance 1 against 4).
\<close>

theorem nearestNodes_counterexample:
  "run_tbl [Insert (peer 1)] (newNodeTable 2 self0) =
     Inr \<lparr>buckets = [peer 1] # replicate 159 [], selfid = self0, k = 2\<rparr> \<and>
   nearestNodes \<lparr>NS = (), Digest = 2\<rparr> \<lparr>buckets = [peer 1] # replicate 159 [], selfid = self0, k = 2\<rparr> =
     Inr [peer 1, peer 1] \<and>
   nodes \<lparr>buckets = [peer 1] # replicate 159 [], selfid = self0, k = 2\<rparr> = [peer 1] \<and>
   run_tbl [Insert (peer 7), Insert (peer 2)] (newNodeTable 1 self0) =
     Inr \<lparr>buckets = [peer 2] # [] # [peer 7] # replicate 157 [], selfid = self0, k = 1\<rparr> \<and>
   nearestNodes \<lparr>NS = (), Digest = 6\<rparr>
       \<lparr>buckets = [peer 2] # [] # [peer 7] # replicate 157 [], selfid = self0, k = 1\<rparr> =
     Inr [peer 2] \<and>
   nodes \<lparr>buckets = [peer 2] # [] # [peer 7] # replicate 157 [], selfid = self0, k = 1\<rparr> = [peer 2, peer 7] \<and>
   Xor (Digest (ID (peer 7))) 6 = 1 \<and> Xor (Digest (ID (peer 2))) 6 = 4"
  by code_simp

text \<open>
  Claim C1, amended.  For a table of 160 buckets with \<open>k \<ge> 0\<close>, \<open>nearestNodes t\<close>
  returns a list of at most \<open>k\<close> entries, all of them entries of the table.  With
  \<open>b = Log2int (t.Digest XOR self.Digest)\<close>: when bucket \<open>b\<close> holds at least \<open>k\<close>
  entries the answer is its last \<open>k\<close>; when bucket \<open>b\<close> is empty the answer is the last
  \<open>k\<close> (or all, when there are fewer) of what the walk over the buckets \<open>b + 1\<close>, \<open>b - 1\<close>,
  \<open>b + 2\<close>, \<open>b - 2\<close>, \<dots> has accumulated at the first distance \<open>r\<close> where it holds at
  least \<open>k\<close> entries, or at the last distance, 159, when it never does.  In these two
  cases, and in a table that satisfies the invariant, the answer has no entry twice.
  Nothing is said about a start bucket that is neither empty nor full; the answer is chosen
  by bucket distance and need not be the closest under XOR.
\<close>

theorem nearestNodes_walk:
  assumes "0 \<le> k p" and "length (buckets p) = 160"
  shows "\<exists>ns. nearestNodes t p = Inr ns \<and> int (length ns) \<le> k p \<and> set ns \<subseteq> set (nodes p) \<and>
     (k p \<le> int (length (buckets p ! bucketOf p t)) \<longrightarrow>
        ns = drop (length (buckets p ! bucketOf p t) - nat (k p)) (buckets p ! bucketOf p t)) \<and>
     (buckets p ! bucketOf p t = [] \<longrightarrow>
        (\<exists>r<160. (\<forall>j<r. int (length (walk p (bucketOf p t) j)) < k p) \<and>
                 (k p \<le> int (length (walk p (bucketOf p t) r)) \<or> r = 159) \<and>
                 ns = drop (length (walk p (bucketOf p t) r) - nat (k p)) (walk p (bucketOf p t) r))) \<and>
     (tbl_ok p \<and>
      (buckets p ! bucketOf p t = [] \<or> k p \<le> int (length (buckets p ! bucketOf p t))) \<longrightarrow>
        distinct ns)"
proof -
  from nearestNodes_char[OF assms, of t] obtain ns where
    ns: "nearestNodes t p = Inr ns \<and> int (length ns) \<le> k p \<and> set ns \<subseteq> set (nodes p) \<and>
     (k p \<le> int (length (buckets p ! bucketOf p t)) \<longrightarrow>
        ns = drop (length (buckets p ! bucketOf p t) - nat (k p)) (buckets p ! bucketOf p t)) \<and>
     (buckets p ! bucketOf p t = [] \<longrightarrow>
        (\<exists>r<160. (\<forall>j<r. int (length (walk p (bucketOf p t) j)) < k p) \<and>
                 (k p \<le> int (length (walk p (bucketOf p t) r)) \<or> r = 159) \<and>
                 ns = drop (length (walk p (bucketOf p t) r) - nat (k p)) (walk p (bucketOf p t) r)))"
    by blast
  have "distinct ns"
    if "tbl_ok p \<and>
      (buckets p ! bucketOf p t = [] \<or> k p \<le> int (length (buckets p ! bucketOf p t)))"
    using that ns nearestNodes_distinct[of p t ns] by blast
  then show ?thesis using ns by blast
qed

theorem nearestNodes_walk_witness:
  "0 \<le> k \<lparr>buckets = [peer 2] # [] # [peer 7] # replicate 157 [], selfid = self0, k = 1\<rparr> \<and>
   length (buckets \<lparr>buckets = [peer 2] # [] # [peer 7] # replicate 157 [], selfid = self0, k = 1\<rparr>) = 160 \<and>
   tbl_ok \<lparr>buckets = [peer 2] # [] # [peer 7] # replicate 157 [], selfid = self0, k = 1\<rparr> \<and>
   bucketOf \<lparr>buckets = [peer 2] # [] # [peer 7] # replicate 157 [], selfid = self0, k = 1\<rparr>
     \<lparr>NS = (), Digest = 6\<rparr> = 1 \<and>
   (\<exists>ns. nearestNodes \<lparr>NS = (), Digest = 6\<rparr>
            \<lparr>buckets = [peer 2] # [] # [peer 7] # replicate 157 [], selfid = self0, k = 1\<rparr> = Inr ns \<and>
         int (length ns) \<le> 1 \<and> distinct ns \<and>
         (\<exists>r<160.
            (\<forall>j<r. int (length (walk \<lparr>buckets = [peer 2] # [] # [peer 7] # replicate 157 [],
                                      selfid = self0, k = 1\<rparr> 1 j)) < 1) \<and>
            ns = drop (length (walk \<lparr>buckets = [peer 2] # [] # [peer 7] # replicate 157 [],
                                     selfid = self0, k = 1\<rparr> 1 r) - nat 1)
                   (walk \<lparr>buckets = [peer 2] # [] # [peer 7] # replicate 157 [],
                          selfid = self0, k = 1\<rparr> 1 r)))"
proof -
  let ?p = "\<lparr>buckets = [peer 2] # [] # [peer 7] # replicate 157 [], selfid = self0, k = 1\<rparr>"
  have h1: "0 \<le> k ?p" by simp
  have h2: "length (buckets ?p) = 160" by simp
  have r: "run_tbl [Insert (peer 7), Insert (peer 2)] (newNodeTable 1 self0) = Inr ?p"
    by code_simp
  have ok: "tbl_ok ?p"
    using run_tbl_ok[OF tbl_ok_new r] by simp
  have b: "bucketOf ?p \<lparr>NS = (), Digest = 6\<rparr> = 1" by code_simp
  have e: "buckets ?p ! 1 = []" by simp
  from nearestNodes_walk[OF h1 h2, of "\<lparr>NS = (), Digest = 6\<rparr>"] b e h1 h2 ok show ?thesis
    by simp blast
qed

section \<open>DHT: replies and the pending map\<close>

lemma reachable_tbl:
  assumes "0 < k0" "run_tbl ops (newNodeTable k0 s) = Inr t"
  shows "tbl_ok t \<and> k t = k0"
proof -
  have "tbl_ok (newNodeTable k0 s)" using assms(1) by (intro tbl_ok_new) simp
  from run_tbl_ok[OF this assms(2)] show ?thesis by (simp add: newNodeTable_def)
qed

lemma insert_reachable:
  assumes "tbl_ok t" "0 < k t"
  shows "\<exists>t'. insert_tbl n t = Inr t' \<and> tbl_ok t' \<and> k t' = k t"
proof -
  from insert_tbl_total[OF assms] obtain t' where t': "insert_tbl n t = Inr t'" by blast
  from tbl_ok_insert[OF assms(1) t'] insert_tbl_Inr[OF assms(1) t'] t' show ?thesis by auto
qed

lemma nearestNodes_total:
  assumes "tbl_ok t" "0 < k t"
  shows "\<exists>ns. nearestNodes i t = Inr ns"
proof -
  have "0 \<le> k t" "length (buckets t) = 160" using assms by (simp_all add: tbl_ok_def)
  from nearestNodes_char[OF this, of i] show ?thesis by blast
qed

lemma sendPacket_Some:
  assumes "marshal ex c = Some data"
  shows "sendPacket ex d c p =
     Inr (nchans p,
          p\<lparr>nchans := Suc (nchans p), rpcRet := (rpcRet p)(Id_cmd c \<mapsto> nchans p),
            rpc := rpc p @ [\<lparr>dst = d, payload = data\<rparr>]\<rparr>)"
  using assms by (simp add: sendPacket_def Let_def push_def)

lemma reply_Some:
  assumes "marshal ex (newRpcReturnCommand (Id_cmd c) args) = Some data"
  shows "reply ex src0 c args p =
     Inr (p\<lparr>nchans := Suc (nchans p), rpcRet := (rpcRet p)(Id_cmd c \<mapsto> nchans p),
            rpc := rpc p @ [\<lparr>dst = ID src0, payload = data\<rparr>]\<rparr>)"
  using sendPacket_Some[OF assms, of "ID src0" p]
  by (simp add: reply_def newRpcReturnCommand_def)

subsection \<open>What the reply is made of\<close>

lemma SetBytes_Nil: "SetBytes [] = 0"
  by (simp add: SetBytes_def)

lemma SetBytes_snoc: "SetBytes (bs @ [c]) = 256 * SetBytes bs + of_char c"
  by (simp add: SetBytes_def)

lemma SetBytes_range: "0 \<le> SetBytes bs \<and> SetBytes bs < 256 ^ length bs"
proof (induction bs rule: rev_induct)
  case Nil
  then show ?case by (simp add: SetBytes_Nil)
next
  case (snoc c bs)
  have c: "(of_char c :: int) < 256" "(0::int) \<le> of_char c"
    by (metis of_char_mod_256 pos_mod_bound zero_less_numeral)
       (metis of_nat_of_char of_nat_0_le_iff)
  from snoc have "SetBytes bs + 1 \<le> 256 ^ length bs" by simp
  then have "256 * (SetBytes bs + 1) \<le> 256 * 256 ^ length bs" by simp
  then show ?case using snoc c by (simp add: SetBytes_snoc)
qed

lemma Bytes_nat_roundtrip: "SetBytes (Bytes_nat n) = int n"
proof (induction n rule: Bytes_nat.induct)
  case (1 n)
  show ?case
  proof (cases "n = 0")
    case True
    then show ?thesis by (simp add: Bytes_nat.simps SetBytes_Nil)
  next
    case False
    have "SetBytes (Bytes_nat n) = 256 * SetBytes (Bytes_nat (n div 256)) + of_char (char_of (n mod 256))"
      using False by (subst Bytes_nat.simps) (simp add: SetBytes_snoc)
    also have "\<dots> = 256 * int (n div 256) + int (n mod 256)"
    proof -
      have "(of_char (char_of (n mod 256)) :: int) = int (n mod 256) mod 256"
        by (metis char_of_nat of_char_of)
      then show ?thesis using 1[OF False] by (simp add: zmod_int)
    qed
    also have "\<dots> = int n" by (simp add: zdiv_int zmod_int)
    finally show ?thesis .
  qed
qed

lemma Bytes_roundtrip: "SetBytes (Bytes x) = \<bar>x\<bar>"
  by (simp add: Bytes_def Bytes_nat_roundtrip)

lemma Bytes_nat_Nil: "Bytes_nat n = [] \<longleftrightarrow> n = 0"
  by (subst Bytes_nat.simps) simp

lemma Bytes_nat_no_leading_zero: "0 < n \<Longrightarrow> hd (Bytes_nat n) \<noteq> CHR 0x00"
proof (induction n rule: Bytes_nat.induct)
  case (1 n)
  then have n0: "n \<noteq> 0" by simp
  show ?case
  proof (cases "n div 256 = 0")
    case True
    then have lt: "n < 256" using div_eq_0_iff[of n 256] by simp
    have "Bytes_nat n = [char_of n]"
      using n0 True lt by (subst Bytes_nat.simps) (simp add: Bytes_nat_Nil)
    moreover have "char_of n \<noteq> CHR 0x00"
    proof
      assume "char_of n = CHR 0x00"
      then have "of_char (char_of n) = (of_char (CHR 0x00) :: nat)" by simp
      then show False using lt n0 by simp
    qed
    ultimately show ?thesis by simp
  next
    case False
    then have ne: "Bytes_nat (n div 256) \<noteq> []" by (simp add: Bytes_nat_Nil)
    have "Bytes_nat n = Bytes_nat (n div 256) @ [char_of (n mod 256)]"
      using n0 by (subst Bytes_nat.simps) simp
    then have "hd (Bytes_nat n) = hd (Bytes_nat (n div 256))" using ne by simp
    then show ?thesis using 1(1)[OF n0] False by simp
  qed
qed

lemma Bytes_minimal: "Bytes x = [] \<longleftrightarrow> x = 0" "x \<noteq> 0 \<Longrightarrow> hd (Bytes x) \<noteq> CHR 0x00"
  using Bytes_nat_no_leading_zero[of "nat \<bar>x\<bar>"] by (auto simp: Bytes_def Bytes_nat_Nil)

lemma NewNodeId_Digest: "NewNodeId data = \<lparr>NS = (), Digest = SetBytes data\<rparr>"
  by (simp add: NewNodeId_def)

lemma nodes_ary_map:
  "nodes_ary ns = map (\<lambda>n. [(''id'', Bytes (Digest (ID n))), (''addr'', Addr n)]) ns"
  by (simp add: nodes_ary_def)

lemma nodes_ary_nth:
  assumes "i < length ns"
  shows "length (nodes_ary ns) = length ns \<and>
         map_of (nodes_ary ns ! i) ''id'' = Some (Bytes (Digest (ID (ns ! i)))) \<and>
         map_of (nodes_ary ns ! i) ''addr'' = Some (Addr (ns ! i)) \<and>
         SetBytes (the (map_of (nodes_ary ns ! i) ''id'')) = \<bar>Digest (ID (ns ! i))\<bar>"
  using assms by (simp add: nodes_ary_def Bytes_roundtrip)

lemma Bytes_AB: "Bytes 16706 = ''AB''"
proof -
  have "char_of (65::nat) = CHR ''A''" "char_of (66::nat) = CHR ''B''" by code_simp+
  then show ?thesis by (simp add: Bytes_def Bytes_nat.simps)
qed

lemma SetBytes_AB: "SetBytes ''AB'' = 16706"
  by code_simp

text \<open>
  Claim C4.  Let the table of the DHT be one reached from \<open>newNodeTable k0 s\<close> with
  \<open>k0 > 0\<close> and let the codec marshal every command.  When a payload decodes to a
  command with method \<open>find-value\<close> and a string under \<open>key\<close>, \<open>processPacket\<close>
  returns with exactly one packet added to the outgoing queue.  It goes to the sender and
  carries the marshalled command with the request's id, the empty method and one
  argument: \<open>value\<close>, holding what the store has for the key; or, when the store has
  nothing, \<open>nodes\<close>, holding for each node that \<open>nearestNodes\<close> returns, in its order,
  the pair of \<open>id\<close> (the big-endian bytes of the node's digest) and \<open>addr\<close> (its
  address).  The target of \<open>nearestNodes\<close> is the identifier whose digest is the
  big-endian reading of the hash of the key, and its table is the one that now includes
  the sender.  The store is the same afterwards.
\<close>

theorem find_value_reply:
  assumes k0: "0 < k0" and tbl: "run_tbl ops (newNodeTable k0 s) = Inr (table p)"
    and ms: "\<forall>c. marshal ex c \<noteq> None"
    and um: "unmarshal ex pl = Some cmd"
    and m: "Method cmd = ''find-value''"
    and key: "Args cmd ''key'' = Some (AStr key0)"
  shows "\<exists>t ns data p'.
      insert_tbl src (table p) = Inr t \<and>
      nearestNodes \<lparr>NS = (), Digest = SetBytes (sha1 ex key0)\<rparr> t = Inr ns \<and>
      marshal ex \<lparr>Id_cmd = Id_cmd cmd, Method = [],
                  Args = (case kvs p key0 of
                            Some v \<Rightarrow> [''value'' \<mapsto> AStr v]
                          | None \<Rightarrow>
                              [''nodes'' \<mapsto>
                                 ANodes (map (\<lambda>n. [(''id'', Bytes (Digest (ID n))), (''addr'', Addr n)])
                                           ns)])\<rparr> = Some data \<and>
      processPacket ex src pl p = Inr p' \<and>
      rpc p' = rpc p @ [\<lparr>dst = ID src, payload = data\<rparr>] \<and>
      kvs p' = kvs p \<and> table p' = t \<and>
      (\<forall>n\<in>set ns. SetBytes (Bytes (Digest (ID n))) = \<bar>Digest (ID n)\<bar>)"
proof -
  from reachable_tbl[OF k0 tbl] have ok: "tbl_ok (table p)" and kp: "0 < k (table p)"
    using k0 by auto
  from insert_reachable[OF ok kp, of src] obtain t where
    t: "insert_tbl src (table p) = Inr t" "tbl_ok t" "0 < k t" using kp by auto
  from nearestNodes_total[OF t(2,3)] obtain ns where
    ns: "nearestNodes (NewNodeId (sha1 ex key0)) t = Inr ns" by blast
  let ?args = "case kvs p key0 of
                 Some v \<Rightarrow> [''value'' \<mapsto> AStr v]
               | None \<Rightarrow> [''nodes'' \<mapsto> ANodes (nodes_ary ns)]"
  from ms obtain data where
    data: "marshal ex (newRpcReturnCommand (Id_cmd cmd) ?args) = Some data" by auto
  have neq: "''find-value'' \<noteq> ''ping''" "''find-value'' \<noteq> ''find-node''"
    "''find-value'' \<noteq> ''store''" by simp_all
  have pp: "processPacket ex src pl p = reply ex src cmd ?args (p\<lparr>table := t\<rparr>)"
    using um m key t(1) ns neq
    by (cases "kvs p key0") (simp_all add: processPacket_def Let_def kvs_get_def)
  have res: "processPacket ex src pl p =
      Inr (p\<lparr>table := t, nchans := Suc (nchans p), rpcRet := (rpcRet p)(Id_cmd cmd \<mapsto> nchans p),
             rpc := rpc p @ [\<lparr>dst = ID src, payload = data\<rparr>]\<rparr>)"
    unfolding pp using reply_Some[OF data, of src "p\<lparr>table := t\<rparr>"] by simp
  have ns': "nearestNodes \<lparr>NS = (), Digest = SetBytes (sha1 ex key0)\<rparr> t = Inr ns"
    using ns by (simp add: NewNodeId_Digest)
  have data': "marshal ex \<lparr>Id_cmd = Id_cmd cmd, Method = [],
                  Args = (case kvs p key0 of
                            Some v \<Rightarrow> [''value'' \<mapsto> AStr v]
                          | None \<Rightarrow>
                              [''nodes'' \<mapsto>
                                 ANodes (map (\<lambda>n. [(''id'', Bytes (Digest (ID n))), (''addr'', Addr n)])
                                           ns)])\<rparr> = Some data"
    using data by (cases "kvs p key0") (simp_all add: newRpcReturnCommand_def nodes_ary_map)
  have rt: "\<forall>n\<in>set ns. SetBytes (Bytes (Digest (ID n))) = \<bar>Digest (ID n)\<bar>"
    by (simp add: Bytes_roundtrip)
  show ?thesis using t(1) ns' data' res rt by auto
qed

theorem find_value_reply_witness:
  "(0::int) < 1 \<and>
   run_tbl [Insert peerAB] (newNodeTable 1 (ID (peer 0))) =
     Inr \<lparr>buckets = replicate 13 [] @ [peerAB] # replicate 146 [], selfid = ID (peer 0), k = 1\<rparr> \<and>
   (\<forall>c. marshal ex1 c \<noteq> None) \<and>
   unmarshal ex1 ''fv'' =
     Some \<lparr>Id_cmd = ''r1'', Method = ''find-value'', Args = [''key'' \<mapsto> AStr ''alpha'']\<rparr> \<and>
   (\<exists>p'. processPacket ex1 peerB ''fv''
            ((newDht 1 (peer 0))
               \<lparr>table := \<lparr>buckets = replicate 13 [] @ [peerAB] # replicate 146 [],
                           selfid = ID (peer 0), k = 1\<rparr>\<rparr>) = Inr p' \<and>
         rpc p' = [\<lparr>dst = ID peerB,
                    payload = '':r1:value=:nodes=[id=AB;addr=10.0.0.7:9200;]''\<rparr>] \<and>
         kvs p' = Map.empty) \<and>
   (\<exists>p'. processPacket ex1 peerB ''fv''
            ((newDht 1 (peer 0))
               \<lparr>table := \<lparr>buckets = replicate 13 [] @ [peerAB] # replicate 146 [],
                           selfid = ID (peer 0), k = 1\<rparr>,
                 kvs := [''alpha'' \<mapsto> ''bravo'']\<rparr>) = Inr p' \<and>
         rpc p' = [\<lparr>dst = ID peerB, payload = '':r1:value=bravo:nodes=''\<rparr>] \<and>
         kvs p' = [''alpha'' \<mapsto> ''bravo''])"
proof -
  let ?T = "\<lparr>buckets = replicate 13 [] @ [peerAB] # replicate 146 [], selfid = ID (peer 0), k = 1\<rparr>"
  let ?T' = "\<lparr>buckets = replicate 5 [] @ [peerB] # replicate 7 [] @ [peerAB] # replicate 146 [],
              selfid = ID (peer 0), k = 1\<rparr>"
  let ?pN = "(newDht 1 (peer 0))\<lparr>table := ?T\<rparr>"
  let ?pV = "(newDht 1 (peer 0))\<lparr>table := ?T, kvs := [''alpha'' \<mapsto> ''bravo'']\<rparr>"
  let ?cmd = "\<lparr>Id_cmd = ''r1'', Method = ''find-value'', Args = [''key'' \<mapsto> AStr ''alpha'']\<rparr>"
  have h1: "(0::int) < 1" by simp
  have run: "run_tbl [Insert peerAB] (newNodeTable 1 (ID (peer 0))) = Inr ?T" by code_simp
  have h2N: "run_tbl [Insert peerAB] (newNodeTable 1 (ID (peer 0))) = Inr (table ?pN)"
    using run by simp
  have h2V: "run_tbl [Insert peerAB] (newNodeTable 1 (ID (peer 0))) = Inr (table ?pV)"
    using run by simp
  have h3: "\<forall>c. marshal ex1 c \<noteq> None" by (simp add: ex1_def)
  have h4: "unmarshal ex1 ''fv'' = Some ?cmd" by (simp add: ex1_def)
  have h5: "Method ?cmd = ''find-value''" by simp
  have h6: "Args ?cmd ''key'' = Some (AStr ''alpha'')" by simp
  have ins: "insert_tbl peerB ?T = Inr ?T'" by code_simp
  have nn: "nearestNodes \<lparr>NS = (), Digest = SetBytes (sha1 ex1 ''alpha'')\<rparr> ?T' = Inr [peerAB]"
    by code_simp
  from find_value_reply[OF h1 h2N h3 h4 h5 h6, of peerB] obtain t ns data p' where
    f: "insert_tbl peerB (table ?pN) = Inr t"
       "nearestNodes \<lparr>NS = (), Digest = SetBytes (sha1 ex1 ''alpha'')\<rparr> t = Inr ns"
       "marshal ex1 \<lparr>Id_cmd = Id_cmd ?cmd, Method = [],
                  Args = (case kvs ?pN ''alpha'' of
                            Some v \<Rightarrow> [''value'' \<mapsto> AStr v]
                          | None \<Rightarrow>
                              [''nodes'' \<mapsto>
                                 ANodes (map (\<lambda>n. [(''id'', Bytes (Digest (ID n))), (''addr'', Addr n)])
                                           ns)])\<rparr> = Some data"
       "processPacket ex1 peerB ''fv'' ?pN = Inr p'"
       "rpc p' = rpc ?pN @ [\<lparr>dst = ID peerB, payload = data\<rparr>]"
       "kvs p' = kvs ?pN"
    by blast
  have t: "t = ?T'" using f(1) ins by simp
  have ns: "ns = [peerAB]" using f(2) nn unfolding t by simp
  have d: "data = '':r1:value=:nodes=[id=AB;addr=10.0.0.7:9200;]''"
    using f(3) unfolding ns by (simp add: ex1_def newDht_def peerAB_def Bytes_AB)
  have N: "\<exists>p'. processPacket ex1 peerB ''fv'' ?pN = Inr p' \<and>
         rpc p' = [\<lparr>dst = ID peerB, payload = '':r1:value=:nodes=[id=AB;addr=10.0.0.7:9200;]''\<rparr>] \<and>
         kvs p' = Map.empty"
    using f(4,5,6) d by (simp add: newDht_def)
  from find_value_reply[OF h1 h2V h3 h4 h5 h6, of peerB] obtain t2 ns2 data2 p2 where
    g0: "insert_tbl peerB (table ?pV) = Inr t2"
       "nearestNodes \<lparr>NS = (), Digest = SetBytes (sha1 ex1 ''alpha'')\<rparr> t2 = Inr ns2" and
    g: "marshal ex1 \<lparr>Id_cmd = Id_cmd ?cmd, Method = [],
                  Args = (case kvs ?pV ''alpha'' of
                            Some v \<Rightarrow> [''value'' \<mapsto> AStr v]
                          | None \<Rightarrow>
                              [''nodes'' \<mapsto>
                                 ANodes (map (\<lambda>n. [(''id'', Bytes (Digest (ID n))), (''addr'', Addr n)])
                                           ns2)])\<rparr> = Some data2"
       "processPacket ex1 peerB ''fv'' ?pV = Inr p2"
       "rpc p2 = rpc ?pV @ [\<lparr>dst = ID peerB, payload = data2\<rparr>]"
       "kvs p2 = kvs ?pV"
    by blast
  have d2: "data2 = '':r1:value=bravo:nodes=''"
    using g(1) by (simp add: ex1_def)
  have V: "\<exists>p'. processPacket ex1 peerB ''fv'' ?pV = Inr p' \<and>
         rpc p' = [\<lparr>dst = ID peerB, payload = '':r1:value=bravo:nodes=''\<rparr>] \<and>
         kvs p' = [''alpha'' \<mapsto> ''bravo'']"
    using g(2,3,4) d2 by (simp add: newDht_def)
  show ?thesis using h1 run h3 h4 N V by blast
qed


subsection \<open>The pending map in every state of a run\<close>







lemma sendPacket_last_state:
  "sendPacket ex d c p =
     (case sendPacket_states ex d c p of Inl e \<Rightarrow> Inl e | Inr (ch, qs) \<Rightarrow> Inr (ch, last qs))"
  by (cases "marshal ex c") (simp_all add: sendPacket_def sendPacket_states_def Let_def)










text \<open>
  Claim C7 fails on the code.  \<open>insert\<close> has no check against \<open>selfid\<close>, and neither
  \<open>addNode\<close> nor the sender insertion of \<open>processPacket\<close> has one (only
  \<^verbatim>\<open>findNearestNode\<close> compares a learned node with \<^verbatim>\<open>p.info.Id\<close> before inserting).
  In a fresh DHT with \<open>k = 10\<close> whose own identifier has digest 77: after \<open>addNode\<close> of
  its own record, after \<open>processPacket\<close> of a request whose sender carries its own
  identifier, and after a bare \<open>insert\<close>, the lookup of the own identifier returns an
  entry, held in bucket \<open>Log2int 0 = 0\<close>.
\<close>

theorem self_enters_table:
  "(case addNode ex0 ''q1'' (peer 77) (newDht 10 (peer 77)) of
      Inl e \<Rightarrow> None
    | Inr d \<Rightarrow> getNodeInfo (ID (peer 77)) d) = Some (peer 77) \<and>
   (case processPacket ex0 (peer 77) ''fv'' (newDht 10 (peer 77)) of
      Inl e \<Rightarrow> None
    | Inr d \<Rightarrow> getNodeInfo (ID (peer 77)) d) = Some (peer 77) \<and>
   (case insert_tbl (peer 77) (newNodeTable 10 (ID (peer 77))) of
      Inl e \<Rightarrow> None
    | Inr t \<Rightarrow> find_tbl (selfid t) t) = Some (peer 77) \<and>
   (case insert_tbl (peer 77) (newNodeTable 10 (ID (peer 77))) of
      Inl e \<Rightarrow> []
    | Inr t \<Rightarrow> buckets t ! 0) = [peer 77]"
  by code_simp

section \<open>Router: sending, joining, forwarding\<close>

text \<open>
  Claim C6.  \<open>SendMessage dst payload\<close> returns no error and adds to the send channel
  exactly the packet with \<open>Dst = dst\<close>, \<open>Src\<close> the identifier made of the namespace of
  \<open>dst\<close> and the digest of the router's own key, \<open>Type = "msg"\<close>, the payload, and
  \<open>TTL = 3\<close>.  Whatever the type, a packet made by \<open>makePacket\<close> has \<open>TTL = 3\<close> and
  the namespace of its destination in \<open>Src\<close>.
\<close>

theorem SendMessage_packet:
  "SendMessage dst0 payload0 p =
     (None, p\<lparr>send := send p @
        [\<lparr>Dst = dst0, Src = \<lparr>NS = NS dst0, Digest = key_Digest p\<rparr>, Type = ''msg'',
          Payload = payload0, TTL = 3\<rparr>]\<rparr>) \<and>
   TTL (fst (makePacket dst0 typ payload0 p)) = 3 \<and>
   NS (Src (fst (makePacket dst0 typ payload0 p))) = NS dst0"
  by (simp add: SendMessage_def makePacket_def NewNodeID_def)

text \<open>
  Claim C9.  A router has joined \<open>g\<close> when its group map has an entry under the string
  form of \<open>g\<close>.  Then \<open>Join g\<close> returns the error \<open>already joined\<close> and the router is
  unchanged.  Otherwise \<open>Join g\<close> returns no error and the group map gains the one entry
  for \<open>g\<close>, a new DHT, every other entry staying as it was; a second \<open>Join g\<close> right
  after returns \<open>already joined\<close> and changes nothing.
\<close>

theorem Join_twice:
  "(map_of (groupDht p) (String w g) \<noteq> None \<longrightarrow> Join w g p = (Some ''already joined'', p)) \<and>
   (map_of (groupDht p) (String w g) = None \<longrightarrow>
      Join w g p = (None, p\<lparr>groupDht := groupDht p @ [(String w g, NewDHT w 10 (id_router p) g)]\<rparr>) \<and>
      map_of (groupDht (snd (Join w g p))) =
        (map_of (groupDht p))(String w g \<mapsto> NewDHT w 10 (id_router p) g) \<and>
      length (groupDht (snd (Join w g p))) = Suc (length (groupDht p)) \<and>
      Join w g (snd (Join w g p)) = (Some ''already joined'', snd (Join w g p)))"
proof (intro conjI impI)
  assume "map_of (groupDht p) (String w g) \<noteq> None"
  then show "Join w g p = (Some ''already joined'', p)"
    by (auto simp: Join_def)
next
  assume n: "map_of (groupDht p) (String w g) = None"
  let ?p' = "p\<lparr>groupDht := groupDht p @ [(String w g, NewDHT w 10 (id_router p) g)]\<rparr>"
  show j: "Join w g p = (None, ?p')" using n by (simp add: Join_def)
  have m: "map_of (groupDht ?p') = (map_of (groupDht p))(String w g \<mapsto> NewDHT w 10 (id_router p) g)"
  proof
    fix x
    show "map_of (groupDht ?p') x = ((map_of (groupDht p))(String w g \<mapsto> NewDHT w 10 (id_router p) g)) x"
      using n by (cases "map_of (groupDht p) x") (auto simp: map_add_def)
  qed
  show "map_of (groupDht (snd (Join w g p))) =
        (map_of (groupDht p))(String w g \<mapsto> NewDHT w 10 (id_router p) g)"
    using m by (simp add: j)
  show "length (groupDht (snd (Join w g p))) = Suc (length (groupDht p))" by (simp add: j)
  have "map_of (groupDht ?p') (String w g) = Some (NewDHT w 10 (id_router p) g)"
    by (subst m) simp
  then have "Join w g ?p' = (Some ''already joined'', ?p')" by (simp add: Join_def)
  then show "Join w g (snd (Join w g p)) = (Some ''already joined'', snd (Join w g p))"
    by (simp add: j)
qed

theorem Join_twice_witness:
  "map_of (groupDht router0) (String w0 group0) \<noteq> None \<and>
   Join w0 group0 router0 = (Some ''already joined'', router0) \<and>
   map_of (groupDht router0) (String w0 \<lparr>NS = [2, 2, 2, 2], Digest = 8\<rparr>) = None \<and>
   Join w0 \<lparr>NS = [2, 2, 2, 2], Digest = 8\<rparr> router0 =
     (None, router0\<lparr>groupDht := groupDht router0 @ [(String w0 \<lparr>NS = [2, 2, 2, 2], Digest = 8\<rparr>, [])]\<rparr>) \<and>
   Join w0 \<lparr>NS = [2, 2, 2, 2], Digest = 8\<rparr> (snd (Join w0 \<lparr>NS = [2, 2, 2, 2], Digest = 8\<rparr> router0)) =
     (Some ''already joined'', snd (Join w0 \<lparr>NS = [2, 2, 2, 2], Digest = 8\<rparr> router0))"
proof -
  let ?g = "\<lparr>NS = [2, 2, 2, 2], Digest = 8\<rparr> :: namespace NodeID"
  have a: "map_of (groupDht router0) (String w0 group0) \<noteq> None"
    by (simp add: router0_def)
  have b: "map_of (groupDht router0) (String w0 ?g) = None"
    by code_simp
  have n: "NewDHT w0 10 (id_router router0) ?g = []"
    by (simp add: w0_def)
  have A: "Join w0 group0 router0 = (Some ''already joined'', router0)"
    using Join_twice[of router0 w0 group0] a by blast
  have B: "Join w0 ?g router0 =
      (None, router0\<lparr>groupDht := groupDht router0 @ [(String w0 ?g, NewDHT w0 10 (id_router router0) ?g)]\<rparr>)"
    and C: "Join w0 ?g (snd (Join w0 ?g router0)) = (Some ''already joined'', snd (Join w0 ?g router0))"
    using Join_twice[of router0 w0 ?g] b by blast+
  have B': "Join w0 ?g router0 = (None, router0\<lparr>groupDht := groupDht router0 @ [(String w0 ?g, [])]\<rparr>)"
    using B unfolding n .
  show ?thesis using a A b B' C by blast
qed

lemma getSessions_existing:
  assumes "NS i = GlobalNamespace w" "sessions p (String w i) = Some s"
  shows "getSessions w i p = ([s], p)"
  using assms by (simp add: getSessions_def getDirectSession_def)

lemma forward_existing:
  assumes "\<forall>n\<in>set ns. NS (ID n) = GlobalNamespace w \<and> sessions p (String w (ID n)) \<noteq> None"
  shows "forward w pkt ns p = (map (\<lambda>n. (the (sessions p (String w (ID n))), pkt)) ns, p)"
  using assms
proof (induction ns)
  case Nil
  then show ?case by simp
next
  case (Cons n ns)
  from Cons.prems obtain s where s: "sessions p (String w (ID n)) = Some s"
    and g: "NS (ID n) = GlobalNamespace w" by auto
  have "getSessions w (ID n) p = ([s], p)" using g s by (rule getSessions_existing)
  then show ?case using Cons s by simp
qed

lemma forward_same_packet: "\<forall>x\<in>set (fst (forward w pkt ns p)). snd x = pkt"
proof (induction ns arbitrary: p)
  case Nil
  then show ?case by simp
next
  case (Cons n ns)
  obtain ss p1 where g: "getSessions w (ID n) p = (ss, p1)" by (cases "getSessions w (ID n) p")
  obtain ws p2 where f: "forward w pkt ns p1 = (ws, p2)" by (cases "forward w pkt ns p1")
  have "\<forall>x\<in>set ws. snd x = pkt" using Cons.IH[of p1] f by simp
  then show ?case using g f by auto
qed

lemma readSession_forward:
  assumes "NS (Src pkt) \<noteq> GlobalNamespace w"
    and "map_of (groupDht p) (String w (Dst pkt)) = Some d"
    and "0 < TTL pkt - 1"
  shows "fst (readSession_packet w now pkt p) =
         fst (forward w (pkt\<lparr>TTL := TTL pkt - 1\<rparr>) (KnownNodes w d) p)"
  using assms by (simp add: readSession_packet_def Let_def split: prod.splits)

text \<open>
  Claim C10.  A session reader gets a packet from outside the global namespace with
  \<open>TTL = 0\<close>, and the router has joined the destination group.  The decrement gives 255,
  so the test \<open>TTL > 0\<close> holds and the packet, now with \<open>TTL = 255\<close>, is written by the
  forwarding loop to the sessions of every node the group's DHT knows; when each of them is
  a peer of the global namespace with a session in the table, that is one write per known
  node.  Forwarding is not suppressed.
\<close>

theorem ttl_zero_forwarded:
  assumes "NS (Src pkt) \<noteq> GlobalNamespace w"
    and "map_of (groupDht p) (String w (Dst pkt)) = Some d"
    and "TTL pkt = 0"
  shows "TTL pkt - 1 = 255 \<and> 0 < TTL pkt - 1 \<and>
     fst (readSession_packet w now pkt p) = fst (forward w (pkt\<lparr>TTL := 255\<rparr>) (KnownNodes w d) p) \<and>
     (\<forall>x\<in>set (fst (readSession_packet w now pkt p)). snd x = pkt\<lparr>TTL := 255\<rparr>) \<and>
     ((\<forall>n\<in>set (KnownNodes w d).
          NS (ID n) = GlobalNamespace w \<and> sessions p (String w (ID n)) \<noteq> None) \<longrightarrow>
        fst (readSession_packet w now pkt p) =
          map (\<lambda>n. (the (sessions p (String w (ID n))), pkt\<lparr>TTL := 255\<rparr>)) (KnownNodes w d))"
proof -
  have t1: "TTL pkt - 1 = 255" using assms(3) by simp
  have t2: "0 < TTL pkt - 1" unfolding t1 by simp
  note t = t1 t2
  have r: "fst (readSession_packet w now pkt p) = fst (forward w (pkt\<lparr>TTL := 255\<rparr>) (KnownNodes w d) p)"
    using readSession_forward[OF assms(1,2) t2, of now] unfolding t1 .
  have s: "\<forall>x\<in>set (fst (readSession_packet w now pkt p)). snd x = pkt\<lparr>TTL := 255\<rparr>"
    unfolding r by (rule forward_same_packet)
  have e: "fst (readSession_packet w now pkt p) =
          map (\<lambda>n. (the (sessions p (String w (ID n))), pkt\<lparr>TTL := 255\<rparr>)) (KnownNodes w d)"
    if "\<forall>n\<in>set (KnownNodes w d).
          NS (ID n) = GlobalNamespace w \<and> sessions p (String w (ID n)) \<noteq> None"
    unfolding r using forward_existing[OF that, of "pkt\<lparr>TTL := 255\<rparr>"] by simp
  show ?thesis using t r s e by blast
qed

theorem ttl_zero_forwarded_witness:
  "NS (Src \<lparr>Dst = group0, Src = \<lparr>NS = [2, 2, 2, 2], Digest = 3\<rparr>, Type = ''msg'',
            Payload = ''hello'', TTL = 0\<rparr>) \<noteq> GlobalNamespace w0 \<and>
   map_of (groupDht router0) (String w0 group0) = Some [member 2, member 5] \<and>
   fst (readSession_packet w0 ''now''
          \<lparr>Dst = group0, Src = \<lparr>NS = [2, 2, 2, 2], Digest = 3\<rparr>, Type = ''msg'',
            Payload = ''hello'', TTL = 0\<rparr> router0) =
     [(ID (member 2), \<lparr>Dst = group0, Src = \<lparr>NS = [2, 2, 2, 2], Digest = 3\<rparr>, Type = ''msg'',
                        Payload = ''hello'', TTL = 255\<rparr>),
      (ID (member 5), \<lparr>Dst = group0, Src = \<lparr>NS = [2, 2, 2, 2], Digest = 3\<rparr>, Type = ''msg'',
                        Payload = ''hello'', TTL = 255\<rparr>)]"
proof -
  let ?pkt = "\<lparr>Dst = group0, Src = \<lparr>NS = [2, 2, 2, 2], Digest = 3\<rparr>, Type = ''msg'',
               Payload = ''hello'', TTL = 0\<rparr>"
  have h1: "NS (Src ?pkt) \<noteq> GlobalNamespace w0" by (simp add: w0_def)
  have h2: "map_of (groupDht router0) (String w0 (Dst ?pkt)) = Some [member 2, member 5]"
    by (simp add: router0_def)
  have h3: "TTL ?pkt = 0" by simp
  have f: "fst (forward w0 (?pkt\<lparr>TTL := 255\<rparr>) (KnownNodes w0 [member 2, member 5]) router0) =
      [(ID (member 2), ?pkt\<lparr>TTL := 255\<rparr>), (ID (member 5), ?pkt\<lparr>TTL := 255\<rparr>)]"
    by code_simp
  from ttl_zero_forwarded[OF h1 h2 h3, of "''now''"] f h1 h2 show ?thesis by simp
qed

end
